theory Spec2Isabelle
  imports Main
begin

section \<open>Exceptions\<close>

text \<open>
  \<open>InvalidCellException\<close> is the exception class of the program and carries its message.
  \<open>KeyError\<close> is what a dictionary lookup \<open>self._cells[(row, column)]\<close> raises on a missing
  key, and \<open>ValueError\<close> is what \<open>random.sample\<close> raises on a sample size outside the
  population.
\<close>

datatype error = InvalidCellException string | KeyError | ValueError

section \<open>Decimal rendering of integers\<close>

text \<open>
  Python's \<open>str\<close> on an integer, used by \<open>PlainCell.get_content\<close> and by the \<open>%s\<close>
  conversions of the exception messages.
\<close>

definition digit_char :: "nat \<Rightarrow> char" where
  "digit_char d = char_of (48 + d)"

fun str_nat :: "nat \<Rightarrow> string" where
  "str_nat n = (if n < 10 then [digit_char n] else str_nat (n div 10) @ [digit_char (n mod 10)])"

definition str_int :: "int \<Rightarrow> string" where
  "str_int i = (if i < 0 then CHR ''-'' # str_nat (nat (- i)) else str_nat (nat i))"

section \<open>Cells\<close>

text \<open>
  The flag state and the click state of a cell are stateless strategy objects in the source
  (\<open>Flag\<close>, \<open>NoFlag\<close>, \<open>ClickedState\<close>, \<open>UnclikedState\<close>); the model keeps their class only.
  The class of the cell itself is \<open>PlainCell\<close> with its counter, \<open>EmptyPlainCell\<close> (whose
  counter is 0) or \<open>BombCell\<close>.
\<close>

datatype FlagState = Flag | NoFlag

datatype ClickState = ClickedState | UnclikedState

datatype CellClass = PlainCell int | EmptyPlainCell | BombCell

record Cell =
  flag :: FlagState
  clicked :: ClickState
  cls :: CellClass

text \<open>\<open>Cell.__init__\<close>: no flag, not clicked.\<close>

definition Cell_init :: "CellClass \<Rightarrow> Cell" where
  "Cell_init k = \<lparr>flag = NoFlag, clicked = UnclikedState, cls = k\<rparr>"

text \<open>The attribute \<open>_counter\<close>; a \<open>BombCell\<close> has none.\<close>

fun counter :: "CellClass \<Rightarrow> int option" where
  "counter (PlainCell n) = Some n"
| "counter EmptyPlainCell = Some 0"
| "counter BombCell = None"

fun get_content :: "CellClass \<Rightarrow> string" where
  "get_content (PlainCell n) = str_int n"
| "get_content EmptyPlainCell = str_int 0"
| "get_content BombCell = ''B''"

text \<open>\<open>FlagState.render\<close>, \<open>ClickState.render\<close> and \<open>Cell.render\<close>.\<close>

fun flag_render :: "FlagState \<Rightarrow> string" where
  "flag_render Flag = ''F''"
| "flag_render NoFlag = '' ''"

definition render :: "Cell \<Rightarrow> string" where
  "render a_cell =
     (case clicked a_cell of
        ClickedState \<Rightarrow> get_content (cls a_cell)
      | UnclikedState \<Rightarrow> flag_render (flag a_cell))"

text \<open>
  \<open>Cell.put_flag\<close> dispatches on the click state: \<open>UnclikedState.put_flag\<close> sets the flag,
  \<open>ClickedState.put_flag\<close> does nothing. \<open>Cell.remove_flag\<close> always clears it.
\<close>

definition cell_put_flag :: "Cell \<Rightarrow> Cell" where
  "cell_put_flag a_cell =
     (case clicked a_cell of
        ClickedState \<Rightarrow> a_cell
      | UnclikedState \<Rightarrow> a_cell\<lparr>flag := Flag\<rparr>)"

definition cell_remove_flag :: "Cell \<Rightarrow> Cell" where
  "cell_remove_flag a_cell = a_cell\<lparr>flag := NoFlag\<rparr>"

text \<open>\<open>PlainCellFactory.build_plain_cell\<close>: key 0 builds an \<open>EmptyPlainCell\<close>, every other
  key falls to the default of the dictionary and builds a \<open>PlainCell\<close>.\<close>

definition build_plain_cell :: "int \<Rightarrow> Cell" where
  "build_plain_cell n = (if n = 0 then Cell_init EmptyPlainCell else Cell_init (PlainCell n))"

section \<open>The board\<close>

record Board =
  rows :: int
  columns :: int
  bombs :: int
  cells :: "(int \<times> int) \<rightharpoonup> Cell"
  exploded_bomb :: "(int \<times> int) option"

definition is_valid_row :: "Board \<Rightarrow> int \<Rightarrow> bool" where
  "is_valid_row b row \<longleftrightarrow> 0 \<le> row \<and> row < rows b"

definition is_valid_column :: "Board \<Rightarrow> int \<Rightarrow> bool" where
  "is_valid_column b column \<longleftrightarrow> 0 \<le> column \<and> column < columns b"

text \<open>
  \<open>Board._get_neighbors\<close> builds a set from a generator over the 3 by 3 block around the
  coordinate. The model lists the members in the generator's order; the list has no
  duplicates (lemma \<open>distinct_get_neighbors\<close>), so it stands for the set.
\<close>

definition get_neighbors :: "Board \<Rightarrow> int \<Rightarrow> int \<Rightarrow> (int \<times> int) list" where
  "get_neighbors b row column =
     concat (map (\<lambda>a_row.
       concat (map (\<lambda>a_column.
         if is_valid_row b a_row \<and> is_valid_column b a_column \<and> (a_row, a_column) \<noteq> (row, column)
         then [(a_row, a_column)] else [])
       [column - 1, column, column + 1]))
     [row - 1, row, row + 1])"

text \<open>\<open>range(n)\<close> for an integer \<open>n\<close>: empty when \<open>n \<le> 0\<close>.\<close>

definition range_int :: "int \<Rightarrow> int list" where
  "range_int n = [0..n - 1]"

text \<open>
  \<open>Board._place_bombs\<close>, given the positions the bomb placer has returned. The first loop
  fills \<open>bomb_cells\<close>; the nested loops give every coordinate of the grid a plain cell built
  from the number of its neighbours that are keys of \<open>bomb_cells\<close>; \<open>update\<close> then overrides
  the bomb positions.
\<close>

definition bomb_cells_of :: "(int \<times> int) list \<Rightarrow> ((int \<times> int) \<rightharpoonup> Cell)" where
  "bomb_cells_of bombs_positions =
     fold (\<lambda>(row, col) bomb_cells. bomb_cells((row, col) \<mapsto> Cell_init BombCell))
       bombs_positions Map.empty"

definition bomb_counter :: "Board \<Rightarrow> ((int \<times> int) \<rightharpoonup> Cell) \<Rightarrow> int \<Rightarrow> int \<Rightarrow> int" where
  "bomb_counter b bomb_cells row col =
     sum_list (map (\<lambda>x. 1) (filter (\<lambda>x. x \<in> dom bomb_cells) (get_neighbors b row col)))"

definition place_bombs :: "Board \<Rightarrow> (int \<times> int) list \<Rightarrow> Board" where
  "place_bombs b bombs_positions =
     (let bomb_cells = bomb_cells_of bombs_positions;
          filled = fold (\<lambda>row cs.
                     fold (\<lambda>col cs'. cs'((row, col) \<mapsto> build_plain_cell (bomb_counter b bomb_cells row col)))
                       (range_int (columns b)) cs)
                   (range_int (rows b)) (cells b)
      in b\<lparr>cells := filled ++ bomb_cells, exploded_bomb := None\<rparr>)"

text \<open>
  A bomb placer strategy maps rows, columns and the number of bombs to the positions, or
  raises. \<open>Board.__init__\<close> stores the parameters, starts from the empty dictionary and
  places the bombs.
\<close>

type_synonym BombPlacerStrategy = "int \<Rightarrow> int \<Rightarrow> int \<Rightarrow> error + (int \<times> int) list"

definition Board_init :: "int \<Rightarrow> int \<Rightarrow> int \<Rightarrow> BombPlacerStrategy \<Rightarrow> error + Board" where
  "Board_init n_rows n_columns n_bombs bomb_placer =
     (case bomb_placer n_rows n_columns n_bombs of
        Inl e \<Rightarrow> Inl e
      | Inr bombs_positions \<Rightarrow>
          Inr (place_bombs \<lparr>rows = n_rows, columns = n_columns, bombs = n_bombs,
                            cells = Map.empty, exploded_bomb = None\<rparr> bombs_positions))"

text \<open>
  \<open>RandomBombPlacerStrategy.get_bomb_positions\<close> lists the coordinates of the grid and
  returns the set of a \<open>random.sample\<close> of them. The library function raises
  \<open>ValueError\<close> when the sample size is negative or larger than the population, and
  otherwise returns that many members, taken at distinct places of the list. The random
  choice of the places is the parameter \<open>pick\<close>, from the length of the list and the
  sample size to the places; \<open>picks_sample\<close> is what the library promises of it.
\<close>

definition picks_sample :: "(nat \<Rightarrow> nat \<Rightarrow> nat list) \<Rightarrow> bool" where
  "picks_sample pick \<longleftrightarrow>
     (\<forall>n k. k \<le> n \<longrightarrow>
        distinct (pick n k) \<and> length (pick n k) = k \<and> (\<forall>i \<in> set (pick n k). i < n))"

definition RandomBombPlacerStrategy :: "(nat \<Rightarrow> nat \<Rightarrow> nat list) \<Rightarrow> BombPlacerStrategy" where
  "RandomBombPlacerStrategy pick n_rows n_columns n_bombs =
     (let positions = concat (map (\<lambda>x. map (\<lambda>y. (x, y)) (range_int n_columns)) (range_int n_rows))
      in if n_bombs < 0 \<or> int (length positions) < n_bombs then Inl ValueError
         else Inr (map (\<lambda>i. positions ! i) (pick (length positions) (nat n_bombs))))"

section \<open>Operations of the board\<close>

text \<open>
  \<open>Board._validate_cell\<close>: the row is checked first, then the column. The two messages
  are the format strings \<open>"Row %s is not in range [0, %s)"\<close> and
  \<open>"Column %s is not in range [0, %s)"\<close> applied to the value and the bound.
\<close>

definition row_message :: "int \<Rightarrow> int \<Rightarrow> string" where
  "row_message row n_rows =
     ''Row '' @ str_int row @ '' is not in range [0, '' @ str_int n_rows @ '')''"

definition column_message :: "int \<Rightarrow> int \<Rightarrow> string" where
  "column_message column n_columns =
     ''Column '' @ str_int column @ '' is not in range [0, '' @ str_int n_columns @ '')''"

definition validate_cell :: "Board \<Rightarrow> int \<Rightarrow> int \<Rightarrow> error + unit" where
  "validate_cell b row column =
     (if \<not> is_valid_row b row then
        Inl (InvalidCellException (row_message row (rows b)))
      else if \<not> is_valid_column b column then
        Inl (InvalidCellException (column_message column (columns b)))
      else Inr ())"

text \<open>
  \<open>Board.click\<close> validates, looks the cell up and calls \<open>Cell.click\<close>, which goes through
  \<open>FlagState.click\<close> (\<open>Flag\<close>: nothing happens) and \<open>ClickState.click\<close> (\<open>ClickedState\<close>:
  nothing happens; \<open>UnclikedState\<close>: the cell becomes clicked and \<open>propagate_click\<close> runs).
  Only \<open>EmptyPlainCell.propagate_click\<close> does anything: \<open>click_neighbors\<close> calls
  \<open>Board.click\<close> on each neighbour in turn, on the board as the earlier calls left it.

  The recursion of \<open>Board.click\<close> through \<open>click_neighbors\<close> is bounded by fuel: the
  number of nested calls of \<open>Board.click\<close> allowed. \<open>None\<close> means that the bound was
  reached before the call returned. The source iterates over a Python set, whose order
  is not fixed by the program: the parameter \<open>order\<close> arranges the members for the loop.
\<close>

type_synonym iteration_order = "(int \<times> int) list \<Rightarrow> (int \<times> int) list"

fun click_fuel :: "iteration_order \<Rightarrow> nat \<Rightarrow> Board \<Rightarrow> int \<Rightarrow> int \<Rightarrow> (error + Board) option"
  and click_neighbors :: "iteration_order \<Rightarrow> nat \<Rightarrow> Board \<Rightarrow> (int \<times> int) list \<Rightarrow> (error + Board) option"
where
  "click_fuel order 0 b row column = None"
| "click_fuel order (Suc n) b row column =
     (case validate_cell b row column of
        Inl e \<Rightarrow> Some (Inl e)
      | Inr _ \<Rightarrow>
         (case cells b (row, column) of
            None \<Rightarrow> Some (Inl KeyError)
          | Some a_cell \<Rightarrow>
             (case flag a_cell of
                Flag \<Rightarrow> Some (Inr b)
              | NoFlag \<Rightarrow>
                 (case clicked a_cell of
                    ClickedState \<Rightarrow> Some (Inr b)
                  | UnclikedState \<Rightarrow>
                     (let b' = b\<lparr>cells := (cells b)((row, column) \<mapsto> a_cell\<lparr>clicked := ClickedState\<rparr>)\<rparr>
                      in case cls a_cell of
                           EmptyPlainCell \<Rightarrow>
                             click_neighbors order n b' (order (get_neighbors b row column))
                         | PlainCell _ \<Rightarrow> Some (Inr b')
                         | BombCell \<Rightarrow> Some (Inr b'))))))"
| "click_neighbors order n b [] = Some (Inr b)"
| "click_neighbors order n b (each # neighbors) =
     (case click_fuel order n b (fst each) (snd each) of
        None \<Rightarrow> None
      | Some (Inl e) \<Rightarrow> Some (Inl e)
      | Some (Inr b') \<Rightarrow> click_neighbors order n b' neighbors)"

text \<open>
  \<open>Board.click\<close> itself: one more nested call than the grid has cells is always enough
  (see the properties of the cascade below), so this fuel never runs out.
\<close>

definition click :: "iteration_order \<Rightarrow> Board \<Rightarrow> int \<Rightarrow> int \<Rightarrow> (error + Board) option" where
  "click order b row column =
     click_fuel order (Suc (nat (rows b) * nat (columns b))) b row column"

text \<open>\<open>Board.put_flag\<close> and \<open>Board.remove_flag\<close>.\<close>

definition put_flag :: "Board \<Rightarrow> int \<Rightarrow> int \<Rightarrow> error + Board" where
  "put_flag b row column =
     (case validate_cell b row column of
        Inl e \<Rightarrow> Inl e
      | Inr _ \<Rightarrow>
         (case cells b (row, column) of
            None \<Rightarrow> Inl KeyError
          | Some a_cell \<Rightarrow> Inr (b\<lparr>cells := (cells b)((row, column) \<mapsto> cell_put_flag a_cell)\<rparr>)))"

definition remove_flag :: "Board \<Rightarrow> int \<Rightarrow> int \<Rightarrow> error + Board" where
  "remove_flag b row column =
     (case validate_cell b row column of
        Inl e \<Rightarrow> Inl e
      | Inr _ \<Rightarrow>
         (case cells b (row, column) of
            None \<Rightarrow> Inl KeyError
          | Some a_cell \<Rightarrow> Inr (b\<lparr>cells := (cells b)((row, column) \<mapsto> cell_remove_flag a_cell)\<rparr>)))"

text \<open>
  \<open>Board.__iter__\<close> is a generator over the grid in the order of its two nested loops. The
  model returns the board (the generator assigns to nothing), the triples yielded, and
  the exception that ends the generator early, if any.
\<close>

definition grid_positions :: "Board \<Rightarrow> (int \<times> int) list" where
  "grid_positions b =
     concat (map (\<lambda>row. map (\<lambda>col. (row, col)) (range_int (columns b))) (range_int (rows b)))"

fun yield_cells :: "Board \<Rightarrow> (int \<times> int) list \<Rightarrow> (int \<times> int \<times> Cell) list \<times> error option" where
  "yield_cells b [] = ([], None)"
| "yield_cells b (p # ps) =
     (case cells b p of
        None \<Rightarrow> ([], Some KeyError)
      | Some a_cell \<Rightarrow>
          (case yield_cells b ps of (ys, e) \<Rightarrow> ((fst p, snd p, a_cell) # ys, e)))"

definition board_iter :: "Board \<Rightarrow> Board \<times> (int \<times> int \<times> Cell) list \<times> error option" where
  "board_iter b = (b, yield_cells b (grid_positions b))"

section \<open>Sequences of operations\<close>

text \<open>
  A client calls \<open>click\<close>, \<open>put_flag\<close> and \<open>remove_flag\<close> in any order. On a board that has
  a cell at every coordinate of its grid the only exception is the one of
  \<open>_validate_cell\<close>, raised before anything is assigned, so an operation that raises
  leaves the board as it was and the client may go on.
\<close>

datatype operation = Click int int | PutFlag int int | RemoveFlag int int

fun apply_operation :: "iteration_order \<Rightarrow> Board \<Rightarrow> operation \<Rightarrow> (error + Board) option" where
  "apply_operation order b (Click row column) = click order b row column"
| "apply_operation order b (PutFlag row column) = Some (put_flag b row column)"
| "apply_operation order b (RemoveFlag row column) = Some (remove_flag b row column)"

fun run :: "iteration_order \<Rightarrow> Board \<Rightarrow> operation list \<Rightarrow> Board" where
  "run order b [] = b"
| "run order b (op # ops) =
     run order (case apply_operation order b op of Some (Inr b') \<Rightarrow> b' | _ \<Rightarrow> b) ops"

section \<open>Notions used in the properties\<close>

text \<open>A coordinate of the grid, and the state of the cell at a coordinate.\<close>

definition valid_position :: "Board \<Rightarrow> int \<times> int \<Rightarrow> bool" where
  "valid_position b p \<longleftrightarrow> is_valid_row b (fst p) \<and> is_valid_column b (snd p)"

definition is_revealed :: "Board \<Rightarrow> int \<times> int \<Rightarrow> bool" where
  "is_revealed b p = (case cells b p of None \<Rightarrow> False | Some c \<Rightarrow> clicked c = ClickedState)"

definition is_hidden :: "Board \<Rightarrow> int \<times> int \<Rightarrow> bool" where
  "is_hidden b p = (case cells b p of None \<Rightarrow> False | Some c \<Rightarrow> clicked c = UnclikedState)"

definition is_flagged :: "Board \<Rightarrow> int \<times> int \<Rightarrow> bool" where
  "is_flagged b p = (case cells b p of None \<Rightarrow> False | Some c \<Rightarrow> flag c = Flag)"

definition has_class :: "Board \<Rightarrow> int \<times> int \<Rightarrow> CellClass \<Rightarrow> bool" where
  "has_class b p k = (case cells b p of None \<Rightarrow> False | Some c \<Rightarrow> cls c = k)"

definition is_numbered :: "Board \<Rightarrow> int \<times> int \<Rightarrow> bool" where
  "is_numbered b p =
     (case cells b p of None \<Rightarrow> False
      | Some c \<Rightarrow> (case cls c of PlainCell _ \<Rightarrow> True | _ \<Rightarrow> False))"

text \<open>The cells on which a click does something: hidden and without a flag.\<close>

definition open_cell :: "Board \<Rightarrow> int \<times> int \<Rightarrow> bool" where
  "open_cell b p =
     (case cells b p of None \<Rightarrow> False
      | Some c \<Rightarrow> flag c = NoFlag \<and> clicked c = UnclikedState)"

text \<open>Every coordinate of the grid has a cell, as on every board that \<open>__init__\<close> returns.\<close>

definition board_filled :: "Board \<Rightarrow> bool" where
  "board_filled b \<longleftrightarrow> list_all (\<lambda>p. cells b p \<noteq> None) (grid_positions b)"

text \<open>The loop of \<open>click_neighbors\<close> visits the members of the set, whatever the order.\<close>

definition set_order :: "iteration_order \<Rightarrow> bool" where
  "set_order order \<longleftrightarrow> (\<forall>xs. set (order xs) = set xs)"

text \<open>
  What a click can do to a cell: nothing, or reveal it if it was hidden without a flag.
  What a click can do to a board: that, cell by cell, and nothing else.
\<close>

definition cell_evolves :: "Cell \<Rightarrow> Cell \<Rightarrow> bool" where
  "cell_evolves c c' \<longleftrightarrow>
     c' = c \<or> (flag c = NoFlag \<and> clicked c = UnclikedState \<and> c' = c\<lparr>clicked := ClickedState\<rparr>)"

definition evolves :: "Board \<Rightarrow> Board \<Rightarrow> bool" where
  "evolves b b' \<longleftrightarrow>
     rows b' = rows b \<and> columns b' = columns b \<and> bombs b' = bombs b \<and>
     exploded_bomb b' = exploded_bomb b \<and>
     (\<forall>p. rel_option cell_evolves (cells b p) (cells b' p))"

text \<open>The number of cells of the grid on which a click does something.\<close>

definition hidden_count :: "Board \<Rightarrow> nat" where
  "hidden_count b = card {p \<in> set (grid_positions b). open_cell b p}"

text \<open>
  The neighbourhood of a coordinate in the words of the specification: the coordinates
  of the grid at distance at most one in each direction, the coordinate itself excluded.
\<close>

definition spec_neighborhood :: "int \<Rightarrow> int \<Rightarrow> int \<times> int \<Rightarrow> (int \<times> int) set" where
  "spec_neighborhood n_rows n_columns p =
     {q. \<bar>fst q - fst p\<bar> \<le> 1 \<and> \<bar>snd q - snd p\<bar> \<le> 1 \<and> q \<noteq> p
         \<and> 0 \<le> fst q \<and> fst q < n_rows \<and> 0 \<le> snd q \<and> snd q < n_columns}"

text \<open>
  The connected region of empty cells around a coordinate, and the numbered cells that
  border it.
\<close>

inductive_set empty_region :: "Board \<Rightarrow> int \<times> int \<Rightarrow> (int \<times> int) set"
  for b :: Board and p0 :: "int \<times> int"
where
  start: "valid_position b p0 \<Longrightarrow> has_class b p0 EmptyPlainCell \<Longrightarrow> p0 \<in> empty_region b p0"
| step: "p \<in> empty_region b p0 \<Longrightarrow> q \<in> spec_neighborhood (rows b) (columns b) p \<Longrightarrow>
         has_class b q EmptyPlainCell \<Longrightarrow> q \<in> empty_region b p0"

definition region_border :: "Board \<Rightarrow> int \<times> int \<Rightarrow> (int \<times> int) set" where
  "region_border b p0 =
     {q. is_numbered b q \<and> (\<exists>p \<in> empty_region b p0. q \<in> spec_neighborhood (rows b) (columns b) p)}"

text \<open>
  The cells a click at a coordinate can reach: the coordinate, if a click acts on it, and
  from an empty cell reached every neighbour on which a click acts.
\<close>

inductive_set reach :: "Board \<Rightarrow> int \<times> int \<Rightarrow> (int \<times> int) set"
  for b :: Board and p0 :: "int \<times> int"
where
  origin: "valid_position b p0 \<Longrightarrow> open_cell b p0 \<Longrightarrow> p0 \<in> reach b p0"
| spread: "p \<in> reach b p0 \<Longrightarrow> has_class b p EmptyPlainCell \<Longrightarrow>
           q \<in> set (get_neighbors b (fst p) (snd p)) \<Longrightarrow> open_cell b q \<Longrightarrow> q \<in> reach b p0"

text \<open>
  \<open>click_fuel\<close> with a log: the coordinates whose cell was assigned \<open>ClickedState\<close>, in the
  order of the assignments.
\<close>

fun click_log :: "iteration_order \<Rightarrow> nat \<Rightarrow> Board \<Rightarrow> int \<Rightarrow> int \<Rightarrow>
                    (error + Board \<times> (int \<times> int) list) option"
  and click_neighbors_log :: "iteration_order \<Rightarrow> nat \<Rightarrow> Board \<Rightarrow> (int \<times> int) list \<Rightarrow>
                    (error + Board \<times> (int \<times> int) list) option"
where
  "click_log order 0 b row column = None"
| "click_log order (Suc n) b row column =
     (case validate_cell b row column of
        Inl e \<Rightarrow> Some (Inl e)
      | Inr _ \<Rightarrow>
         (case cells b (row, column) of
            None \<Rightarrow> Some (Inl KeyError)
          | Some a_cell \<Rightarrow>
             (case flag a_cell of
                Flag \<Rightarrow> Some (Inr (b, []))
              | NoFlag \<Rightarrow>
                 (case clicked a_cell of
                    ClickedState \<Rightarrow> Some (Inr (b, []))
                  | UnclikedState \<Rightarrow>
                     (let b' = b\<lparr>cells := (cells b)((row, column) \<mapsto> a_cell\<lparr>clicked := ClickedState\<rparr>)\<rparr>
                      in case cls a_cell of
                           EmptyPlainCell \<Rightarrow>
                             (case click_neighbors_log order n b' (order (get_neighbors b row column)) of
                                None \<Rightarrow> None
                              | Some (Inl e) \<Rightarrow> Some (Inl e)
                              | Some (Inr (b'', log)) \<Rightarrow> Some (Inr (b'', (row, column) # log)))
                         | PlainCell _ \<Rightarrow> Some (Inr (b', [(row, column)]))
                         | BombCell \<Rightarrow> Some (Inr (b', [(row, column)])))))))"
| "click_neighbors_log order n b [] = Some (Inr (b, []))"
| "click_neighbors_log order n b (each # neighbors) =
     (case click_log order n b (fst each) (snd each) of
        None \<Rightarrow> None
      | Some (Inl e) \<Rightarrow> Some (Inl e)
      | Some (Inr (b', log)) \<Rightarrow>
          (case click_neighbors_log order n b' neighbors of
             None \<Rightarrow> None
           | Some (Inl e) \<Rightarrow> Some (Inl e)
           | Some (Inr (b'', log')) \<Rightarrow> Some (Inr (b'', log @ log'))))"

text \<open>The cells that are hidden on one board and revealed on another.\<close>

definition newly_revealed :: "Board \<Rightarrow> Board \<Rightarrow> (int \<times> int) set" where
  "newly_revealed b b' = {p. is_hidden b p \<and> is_revealed b' p}"

text \<open>The number of bomb cells among all the cells of the board.\<close>

definition bomb_cell_count :: "Board \<Rightarrow> nat" where
  "bomb_cell_count b = card {p. has_class b p BombCell}"

text \<open>
  An example: one row of three cells with a bomb at the right end, so that the cells are
  empty, numbered 1 and bomb, from left to right.
\<close>

definition example_board :: Board where
  "example_board =
     place_bombs \<lparr>rows = 1, columns = 3, bombs = 1, cells = Map.empty, exploded_bomb = None\<rparr>
       [(0, 2)]"

text \<open>The example after \<open>put_flag(0, 0)\<close>: the empty cell holds a flag.\<close>

definition example_flagged :: Board where
  "example_flagged =
     example_board\<lparr>cells := (cells example_board)
       ((0, 0) \<mapsto> \<lparr>flag = Flag, clicked = UnclikedState, cls = EmptyPlainCell\<rparr>)\<rparr>"

section \<open>Properties of the construction\<close>

lemma set_range_int: "set (range_int n) = {0..<n}"
  by (auto simp: range_int_def)

lemma distinct_range_int: "distinct (range_int n)"
  by (simp add: range_int_def)

lemma length_range_int: "length (range_int n) = nat n"
  by (simp add: range_int_def)

lemma set_get_neighbors:
  "set (get_neighbors b row column) =
     {(r, c). (r = row - 1 \<or> r = row \<or> r = row + 1) \<and> (c = column - 1 \<or> c = column \<or> c = column + 1)
        \<and> is_valid_row b r \<and> is_valid_column b c \<and> (r, c) \<noteq> (row, column)}"
  by (auto simp: get_neighbors_def)

lemma distinct_get_neighbors: "distinct (get_neighbors b row column)"
  by (simp add: get_neighbors_def)

lemma bomb_cells_of_fold:
  "fold (\<lambda>(row, col) bomb_cells. bomb_cells((row, col) \<mapsto> Cell_init BombCell)) ps m p =
     (if p \<in> set ps then Some (Cell_init BombCell) else m p)"
  by (induction ps arbitrary: m) (auto split: prod.splits)

lemma bomb_cells_of_apply:
  "bomb_cells_of ps p = (if p \<in> set ps then Some (Cell_init BombCell) else None)"
  by (simp add: bomb_cells_of_def bomb_cells_of_fold)

lemma dom_bomb_cells_of: "dom (bomb_cells_of ps) = set ps"
  by (auto simp: bomb_cells_of_apply dom_def)

lemma fold_columns:
  "fold (\<lambda>col cs'. cs'((row, col) \<mapsto> g col)) cols cs (r, c) =
     (if r = row \<and> c \<in> set cols then Some (g c) else cs (r, c))"
  by (induction cols arbitrary: cs) auto

lemma fold_rows:
  "fold (\<lambda>row cs. fold (\<lambda>col cs'. cs'((row, col) \<mapsto> g row col)) cols cs) rws cs0 (r, c) =
     (if r \<in> set rws \<and> c \<in> set cols then Some (g r c) else cs0 (r, c))"
  by (induction rws arbitrary: cs0) (auto simp: fold_columns)

lemma cells_place_bombs:
  "cells (place_bombs b ps) (r, c) =
     (if (r, c) \<in> set ps then Some (Cell_init BombCell)
      else if is_valid_row b r \<and> is_valid_column b c
           then Some (build_plain_cell (bomb_counter b (bomb_cells_of ps) r c))
           else cells b (r, c))"
  by (auto simp: place_bombs_def Let_def map_add_def fold_rows bomb_cells_of_apply set_range_int
        is_valid_row_def is_valid_column_def)

lemma rows_place_bombs [simp]: "rows (place_bombs b ps) = rows b"
  and columns_place_bombs [simp]: "columns (place_bombs b ps) = columns b"
  and bombs_place_bombs [simp]: "bombs (place_bombs b ps) = bombs b"
  by (simp_all add: place_bombs_def Let_def)

lemma bomb_counter_card:
  "bomb_counter b (bomb_cells_of ps) r c = int (card (set (get_neighbors b r c) \<inter> set ps))"
proof -
  have "bomb_counter b (bomb_cells_of ps) r c =
          int (length (filter (\<lambda>x. x \<in> set ps) (get_neighbors b r c)))"
    by (simp add: bomb_counter_def dom_bomb_cells_of sum_list_triv) 
  also have "length (filter (\<lambda>x. x \<in> set ps) (get_neighbors b r c)) =
          card (set (filter (\<lambda>x. x \<in> set ps) (get_neighbors b r c)))"
    by (rule distinct_card [symmetric]) (simp add: distinct_get_neighbors)
  also have "set (filter (\<lambda>x. x \<in> set ps) (get_neighbors b r c)) = set (get_neighbors b r c) \<inter> set ps"
    by auto
  finally show ?thesis .
qed


lemma get_neighbors_spec:
  "set (get_neighbors b row column) = spec_neighborhood (rows b) (columns b) (row, column)"
  by (auto simp: set_get_neighbors spec_neighborhood_def is_valid_row_def is_valid_column_def)

lemma Board_init_Inr:
  "Board_init n_rows n_columns n_bombs placer = Inr b \<longleftrightarrow>
     (\<exists>ps. placer n_rows n_columns n_bombs = Inr ps \<and>
        b = place_bombs \<lparr>rows = n_rows, columns = n_columns, bombs = n_bombs,
                         cells = Map.empty, exploded_bomb = None\<rparr> ps)"
  by (auto simp: Board_init_def split: sum.splits)

text \<open>
  Claim C1. On the board constructed from the positions the placer returned, the cell at
  every coordinate of the grid that is not one of the positions is a plain cell whose
  counter is the number of coordinates of its neighbourhood (the up to 8 coordinates of
  the grid around it, itself excluded) that hold a bomb cell, which is the number of
  those among the positions; its class is \<open>EmptyPlainCell\<close> when the number is 0 and
  \<open>PlainCell\<close> with that number otherwise.
\<close>

theorem counter_equals_bomb_neighbors:
  assumes placer: "bomb_placer n_rows n_columns n_bombs = Inr bombs_positions"
    and valid: "0 \<le> row" "row < n_rows" "0 \<le> col" "col < n_columns"
    and plain: "(row, col) \<notin> set bombs_positions"
  shows "\<exists>b a_cell n.
           Board_init n_rows n_columns n_bombs bomb_placer = Inr b \<and>
           cells b (row, col) = Some a_cell \<and>
           n = card {q \<in> spec_neighborhood n_rows n_columns (row, col).
                      \<exists>c. cells b q = Some c \<and> cls c = BombCell} \<and>
           n = card (spec_neighborhood n_rows n_columns (row, col) \<inter> set bombs_positions) \<and>
           counter (cls a_cell) = Some (int n) \<and>
           cls a_cell = (if n = 0 then EmptyPlainCell else PlainCell (int n))"
proof -
  define b0 where "b0 = \<lparr>rows = n_rows, columns = n_columns, bombs = n_bombs,
                         cells = Map.empty, exploded_bomb = None\<rparr>"
  define b where "b = place_bombs b0 bombs_positions"
  define N where "N = spec_neighborhood n_rows n_columns (row, col)"
  have init: "Board_init n_rows n_columns n_bombs bomb_placer = Inr b"
    by (simp add: Board_init_def placer b_def b0_def)
  have nb: "set (get_neighbors b0 row col) = N"
    by (simp add: get_neighbors_spec N_def b0_def)
  have bomb_iff: "(\<exists>c. cells b q = Some c \<and> cls c = BombCell) \<longleftrightarrow> q \<in> set bombs_positions"
    if "q \<in> N" for q
    by (cases q) (auto simp: b_def b0_def cells_place_bombs Cell_init_def build_plain_cell_def)
  have same: "{q \<in> N. \<exists>c. cells b q = Some c \<and> cls c = BombCell} = N \<inter> set bombs_positions"
    using bomb_iff by auto
  have cell: "cells b (row, col) = Some (build_plain_cell (int (card (N \<inter> set bombs_positions))))"
  proof -
    have "is_valid_row b0 row" "is_valid_column b0 col"
      using valid by (simp_all add: is_valid_row_def is_valid_column_def b0_def)
    then show ?thesis
      using plain by (simp add: b_def cells_place_bombs bomb_counter_card nb)
  qed
  show ?thesis
    unfolding N_def [symmetric]
    using init cell same by (auto simp: build_plain_cell_def Cell_init_def)
qed

theorem counter_equals_bomb_neighbors_witness:
  "\<exists>b a_cell. Board_init 2 2 1 (\<lambda>_ _ _. Inr [(0, 0)]) = Inr b \<and>
       cells b (1, 1) = Some a_cell \<and> counter (cls a_cell) = Some 1 \<and> cls a_cell = PlainCell 1"
proof -
  have mem: "(0, 0) \<in> spec_neighborhood 2 2 (1, 1)"
    by (simp add: spec_neighborhood_def)
  have eq: "spec_neighborhood 2 2 (1, 1) \<inter> set [(0, 0)] = {(0, 0)}"
    using mem by auto
  have one: "card {(0::int, 0::int)} = 1"
    by simp
  have nb: "card (spec_neighborhood 2 2 (1, 1) \<inter> set [(0, 0)]) = 1"
    using one by (simp only: eq)
  note inst = counter_equals_bomb_neighbors
    [of "\<lambda>_ _ _. Inr [(0, 0)]" 2 2 1 "[(0, 0)]" 1 1]
  have "\<exists>b a_cell n.
           Board_init 2 2 1 (\<lambda>_ _ _. Inr [(0, 0)]) = Inr b \<and>
           cells b (1, 1) = Some a_cell \<and>
           n = card {q \<in> spec_neighborhood 2 2 (1, 1).
                      \<exists>c. cells b q = Some c \<and> cls c = BombCell} \<and>
           n = card (spec_neighborhood 2 2 (1, 1) \<inter> set [(0, 0)]) \<and>
           counter (cls a_cell) = Some (int n) \<and>
           cls a_cell = (if n = 0 then EmptyPlainCell else PlainCell (int n))"
    by (rule inst) simp_all
  then obtain b a_cell n where
    b: "Board_init 2 2 1 (\<lambda>_ _ _. Inr [(0, 0)]) = Inr b" and c: "cells b (1, 1) = Some a_cell"
    and n: "n = card (spec_neighborhood 2 2 (1, 1) \<inter> set [(0, 0)])"
    and cnt: "counter (cls a_cell) = Some (int n)"
    and k: "cls a_cell = (if n = 0 then EmptyPlainCell else PlainCell (int n))"
    by blast
  from n nb have "n = 1"
    by (simp only:)
  with cnt k have "counter (cls a_cell) = Some 1" "cls a_cell = PlainCell 1"
    by simp_all
  with b c show ?thesis
    by blast
qed

section \<open>Properties of the cascade\<close>

lemma cell_evolves_refl [simp]: "cell_evolves c c"
  by (simp add: cell_evolves_def)

lemma cell_evolves_trans: "cell_evolves c c' \<Longrightarrow> cell_evolves c' c'' \<Longrightarrow> cell_evolves c c''"
  by (auto simp: cell_evolves_def)

lemma evolves_refl [simp]: "evolves b b"
  by (simp add: evolves_def option.rel_refl)

lemma evolves_trans: "evolves b b' \<Longrightarrow> evolves b' b'' \<Longrightarrow> evolves b b''"
  unfolding evolves_def
proof (intro conjI allI)
  fix p
  assume a: "rows b' = rows b \<and> columns b' = columns b \<and> bombs b' = bombs b \<and>
     exploded_bomb b' = exploded_bomb b \<and> (\<forall>p. rel_option cell_evolves (cells b p) (cells b' p))"
    and b: "rows b'' = rows b' \<and> columns b'' = columns b' \<and> bombs b'' = bombs b' \<and>
     exploded_bomb b'' = exploded_bomb b' \<and> (\<forall>p. rel_option cell_evolves (cells b' p) (cells b'' p))"
  from a have 1: "rel_option cell_evolves (cells b p) (cells b' p)" by blast
  from b have 2: "rel_option cell_evolves (cells b' p) (cells b'' p)" by blast
  from 1 2 show "rel_option cell_evolves (cells b p) (cells b'' p)"
    by (cases "cells b p"; cases "cells b' p"; cases "cells b'' p")
       (auto intro: cell_evolves_trans)
qed auto

lemma reveal_evolves:
  assumes "cells b p = Some a_cell" "flag a_cell = NoFlag" "clicked a_cell = UnclikedState"
  shows "evolves b (b\<lparr>cells := (cells b)(p \<mapsto> a_cell\<lparr>clicked := ClickedState\<rparr>)\<rparr>)"
  using assms by (auto simp: evolves_def cell_evolves_def option.rel_refl)

lemma click_evolves:
  "click_fuel order n b row column = Some (Inr b') \<Longrightarrow> evolves b b'"
  "click_neighbors order n b ps = Some (Inr b') \<Longrightarrow> evolves b b'"
proof (induction order n b row column and order n b ps arbitrary: b' and b'
       rule: click_fuel_click_neighbors.induct)
  case (1 order b row column)
  then show ?case by simp
next
  case (2 order n b row column)
  from "2.prems" show ?case
    by (auto split: sum.splits option.splits FlagState.splits ClickState.splits CellClass.splits
          simp: Let_def intro: reveal_evolves evolves_trans [OF reveal_evolves "2.IH"])
next
  case (3 order n b)
  then show ?case by simp
next
  case (4 order n b each neighbors)
  from "4.prems" show ?case
    by (auto split: sum.splits option.splits intro: evolves_trans [OF "4.IH"(1) "4.IH"(2)])
qed


lemma set_grid_positions: "set (grid_positions b) = {p. valid_position b p}"
  by (auto simp: grid_positions_def set_range_int valid_position_def is_valid_row_def
        is_valid_column_def)

lemma validate_cell_Inr: "(\<exists>u. validate_cell b row column = Inr u) \<longleftrightarrow> valid_position b (row, column)"
  by (auto simp: validate_cell_def valid_position_def)

lemma validate_cell_Inr_valid: "validate_cell b row column = Inr u \<Longrightarrow> valid_position b (row, column)"
  using validate_cell_Inr by blast

lemma validate_cell_valid: "valid_position b (row, column) \<Longrightarrow> validate_cell b row column = Inr ()"
  by (simp add: validate_cell_def valid_position_def)

lemma get_neighbors_valid: "q \<in> set (get_neighbors b row column) \<Longrightarrow> valid_position b q"
  by (auto simp: set_get_neighbors valid_position_def)

lemma evolves_dims:
  assumes "evolves b b'"
  shows "valid_position b' = valid_position b" "grid_positions b' = grid_positions b"
    "get_neighbors b' = get_neighbors b" "validate_cell b' = validate_cell b"
    "rows b' = rows b" "columns b' = columns b"
  using assms
  by (auto simp: evolves_def valid_position_def grid_positions_def get_neighbors_def
        validate_cell_def is_valid_row_def is_valid_column_def fun_eq_iff)

lemma evolves_cell:
  assumes "evolves b b'"
  shows "rel_option cell_evolves (cells b p) (cells b' p)"
  using assms unfolding evolves_def by blast

lemma evolves_open: "evolves b b' \<Longrightarrow> open_cell b' p \<Longrightarrow> open_cell b p"
  using evolves_cell [of b b' p]
  by (cases "cells b p"; cases "cells b' p") (auto simp: open_cell_def cell_evolves_def)

lemma evolves_revealed: "evolves b b' \<Longrightarrow> is_revealed b p \<Longrightarrow> is_revealed b' p"
  using evolves_cell [of b b' p]
  by (cases "cells b p"; cases "cells b' p") (auto simp: is_revealed_def cell_evolves_def)

lemma evolves_flagged: "evolves b b' \<Longrightarrow> is_flagged b' p = is_flagged b p"
  using evolves_cell [of b b' p]
  by (cases "cells b p"; cases "cells b' p") (auto simp: is_flagged_def cell_evolves_def)

lemma evolves_class: "evolves b b' \<Longrightarrow> has_class b' p k = has_class b p k"
  using evolves_cell [of b b' p]
  by (cases "cells b p"; cases "cells b' p") (auto simp: has_class_def cell_evolves_def)

lemma evolves_numbered: "evolves b b' \<Longrightarrow> is_numbered b' p = is_numbered b p"
  using evolves_cell [of b b' p]
  by (cases "cells b p"; cases "cells b' p") (auto simp: is_numbered_def cell_evolves_def)

lemma evolves_None: "evolves b b' \<Longrightarrow> cells b' p = None \<longleftrightarrow> cells b p = None"
  using evolves_cell [of b b' p]
  by (cases "cells b p"; cases "cells b' p") auto

lemma evolves_filled: "evolves b b' \<Longrightarrow> board_filled b \<Longrightarrow> board_filled b'"
  by (simp add: board_filled_def evolves_dims evolves_None list_all_iff)

lemma board_filled_iff: "board_filled b \<longleftrightarrow> (\<forall>p. valid_position b p \<longrightarrow> cells b p \<noteq> None)"
  by (auto simp: board_filled_def list_all_iff set_grid_positions)

lemma evolves_hidden_count: "evolves b b' \<Longrightarrow> hidden_count b' \<le> hidden_count b"
  unfolding hidden_count_def
  by (rule card_mono) (auto simp: evolves_dims dest: evolves_open)

lemma reveal_hidden_count:
  assumes "valid_position b p" "cells b p = Some a_cell" "flag a_cell = NoFlag"
    "clicked a_cell = UnclikedState"
  shows "hidden_count (b\<lparr>cells := (cells b)(p \<mapsto> a_cell\<lparr>clicked := ClickedState\<rparr>)\<rparr>) < hidden_count b"
proof -
  let ?b' = "b\<lparr>cells := (cells b)(p \<mapsto> a_cell\<lparr>clicked := ClickedState\<rparr>)\<rparr>"
  have ev: "evolves b ?b'" using assms by (intro reveal_evolves)
  have "{q \<in> set (grid_positions ?b'). open_cell ?b' q} \<subset> {q \<in> set (grid_positions b). open_cell b q}"
  proof
    show "{q \<in> set (grid_positions ?b'). open_cell ?b' q} \<subseteq> {q \<in> set (grid_positions b). open_cell b q}"
      using ev by (auto simp: evolves_dims dest: evolves_open)
    have "p \<in> {q \<in> set (grid_positions b). open_cell b q}"
      using assms by (simp add: set_grid_positions open_cell_def)
    moreover have "p \<notin> {q \<in> set (grid_positions ?b'). open_cell ?b' q}"
      by (simp add: open_cell_def)
    ultimately show "{q \<in> set (grid_positions ?b'). open_cell ?b' q} \<noteq> {q \<in> set (grid_positions b). open_cell b q}"
      by blast
  qed
  then show ?thesis
    unfolding hidden_count_def by (intro psubset_card_mono) auto
qed

lemma click_returns:
  "hidden_count b < n \<Longrightarrow> \<exists>res. click_fuel order n b row column = Some res"
  "hidden_count b < n \<Longrightarrow> \<exists>res. click_neighbors order n b ps = Some res"
proof (induction order n b row column and order n b ps
       rule: click_fuel_click_neighbors.induct)
  case (1 order b row column)
  then show ?case by simp
next
  case (2 order n b row column)
  show ?case
  proof (cases "validate_cell b row column")
    case (Inl e)
    then show ?thesis by simp
  next
    case (Inr u)
    then have valid: "valid_position b (row, column)" by (rule validate_cell_Inr_valid)
    show ?thesis
    proof (cases "cells b (row, column)")
      case None
      with Inr show ?thesis by simp
    next
      case (Some a_cell)
      show ?thesis
      proof (cases "flag a_cell = NoFlag \<and> clicked a_cell = UnclikedState \<and> cls a_cell = EmptyPlainCell")
        case True
        let ?b' = "b\<lparr>cells := (cells b)((row, column) \<mapsto> a_cell\<lparr>clicked := ClickedState\<rparr>)\<rparr>"
        have "hidden_count ?b' < hidden_count b"
          using valid Some True by (intro reveal_hidden_count) auto
        with "2.prems" have "hidden_count ?b' < n" by simp
        with "2.IH" [OF Inr Some _ _ refl] True
        have "\<exists>res. click_neighbors order n ?b' (order (get_neighbors b row column)) = Some res"
          by blast
        with Inr Some True show ?thesis by (simp add: Let_def)
      next
        case False
        with Inr Some show ?thesis
          by (auto simp: Let_def split: FlagState.splits ClickState.splits CellClass.splits)
      qed
    qed
  qed
next
  case (3 order n b)
  then show ?case by simp
next
  case (4 order n b each neighbors)
  from "4.IH"(1) "4.prems" obtain res where res: "click_fuel order n b (fst each) (snd each) = Some res"
    by blast
  show ?case
  proof (cases res)
    case (Inl e)
    with res show ?thesis by simp
  next
    case (Inr b')
    with res have "evolves b b'" by (auto dest: click_evolves)
    then have "hidden_count b' < n"
      using "4.prems" evolves_hidden_count [of b b'] by simp
    with "4.IH"(2) [OF res Inr] res Inr show ?thesis by simp
  qed
qed

lemma hidden_count_le: "hidden_count b \<le> nat (rows b) * nat (columns b)"
proof -
  have "hidden_count b \<le> card (set (grid_positions b))"
    unfolding hidden_count_def by (rule card_mono) auto
  also have "set (grid_positions b) = {0..<rows b} \<times> {0..<columns b}"
    by (auto simp: grid_positions_def set_range_int)
  also have "card \<dots> = nat (rows b) * nat (columns b)"
    by (simp add: card_cartesian_product)
  finally show ?thesis .
qed

lemma click_fuel_mono:
  "click_fuel order n b row column = Some res \<Longrightarrow> click_fuel order (Suc n) b row column = Some res"
  "click_neighbors order n b ps = Some res \<Longrightarrow> click_neighbors order (Suc n) b ps = Some res"
proof (induction order n b row column and order n b ps arbitrary: res and res
       rule: click_fuel_click_neighbors.induct)
  case (1 order b row column)
  then show ?case by simp
next
  case (2 order n b row column)
  from "2.prems" show ?case
    by (auto simp: Let_def "2.IH" simp del: click_fuel.simps(2) click_neighbors.simps
          simp add: click_fuel.simps(2) [of order n] click_fuel.simps(2) [of order "Suc n"]
          split: sum.splits option.splits FlagState.splits ClickState.splits CellClass.splits)
next
  case (3 order n b)
  then show ?case by simp
next
  case (4 order n b each neighbors)
  from "4.prems" obtain r where r: "click_fuel order n b (fst each) (snd each) = Some r"
    by (auto split: option.splits)
  then have r': "click_fuel order (Suc n) b (fst each) (snd each) = Some r"
    by (rule "4.IH"(1))
  show ?case
  proof (cases r)
    case (Inl e)
    with r r' "4.prems" show ?thesis
      by (auto simp del: click_fuel.simps)
  next
    case (Inr b')
    with r "4.prems" have "click_neighbors order n b' neighbors = Some res"
      by (simp del: click_fuel.simps)
    with "4.IH"(2) [OF r Inr] have "click_neighbors order (Suc n) b' neighbors = Some res"
      by blast
    with r' Inr show ?thesis
      by (simp del: click_fuel.simps)
  qed
qed

lemma click_fuel_le:
  "click_fuel order n b row column = Some res \<Longrightarrow> n \<le> m \<Longrightarrow> click_fuel order m b row column = Some res"
  by (induction m) (auto simp: le_Suc_eq click_fuel_mono simp del: click_fuel.simps)

lemma click_Some: "\<exists>res. click order b row column = Some res"
  unfolding click_def using hidden_count_le [of b] by (intro click_returns) simp

lemma click_fuel_click:
  assumes "hidden_count b < n"
  shows "click_fuel order n b row column = click order b row column"
proof -
  from assms obtain res where res: "click_fuel order n b row column = Some res"
    using click_returns(1) by blast
  obtain res' where res': "click order b row column = Some res'"
    using click_Some by blast
  let ?m = "Suc (nat (rows b) * nat (columns b))"
  have "click_fuel order (max n ?m) b row column = Some res"
    using res by (rule click_fuel_le) simp
  moreover have "click_fuel order (max n ?m) b row column = Some res'"
    using res' unfolding click_def by (rule click_fuel_le) simp
  ultimately show ?thesis using res res' by simp
qed

lemma click_no_error:
  "board_filled b \<Longrightarrow> set_order order \<Longrightarrow> valid_position b (row, column) \<Longrightarrow>
     click_fuel order n b row column \<noteq> Some (Inl e)"
  "board_filled b \<Longrightarrow> set_order order \<Longrightarrow> \<forall>p \<in> set ps. valid_position b p \<Longrightarrow>
     click_neighbors order n b ps \<noteq> Some (Inl e)"
proof (induction order n b row column and order n b ps
       rule: click_fuel_click_neighbors.induct)
  case (1 order b row column)
  then show ?case by simp
next
  case (2 order n b row column)
  from "2.prems" have v: "validate_cell b row column = Inr ()"
    by (simp add: validate_cell_valid)
  from "2.prems" obtain a_cell where c: "cells b (row, column) = Some a_cell"
    by (auto simp: board_filled_iff)
  show ?case
  proof (cases "flag a_cell = NoFlag \<and> clicked a_cell = UnclikedState \<and> cls a_cell = EmptyPlainCell")
    case True
    let ?b' = "b\<lparr>cells := (cells b)((row, column) \<mapsto> a_cell\<lparr>clicked := ClickedState\<rparr>)\<rparr>"
    have ev: "evolves b ?b'" using c True by (intro reveal_evolves) auto
    have "board_filled ?b'" using ev "2.prems"(1) by (rule evolves_filled)
    moreover have "\<forall>p \<in> set (order (get_neighbors b row column)). valid_position ?b' p"
      using "2.prems"(2) by (auto simp: set_order_def evolves_dims [OF ev] dest: get_neighbors_valid)
    ultimately have "click_neighbors order n ?b' (order (get_neighbors b row column)) \<noteq> Some (Inl e)"
      using "2.IH" [OF v c _ _ refl] True "2.prems"(2) by blast
    with v c True show ?thesis by (simp add: Let_def)
  next
    case False
    with v c show ?thesis
      by (auto simp: Let_def split: FlagState.splits ClickState.splits CellClass.splits)
  qed
next
  case (3 order n b)
  then show ?case by simp
next
  case (4 order n b each neighbors)
  have each: "click_fuel order n b (fst each) (snd each) \<noteq> Some (Inl e)"
    using "4.IH"(1) "4.prems" by simp
  show ?case
  proof (cases "click_fuel order n b (fst each) (snd each)")
    case None
    then show ?thesis by simp
  next
    case (Some r)
    show ?thesis
    proof (cases r)
      case (Inl e')
      with Some each show ?thesis
        by simp
    next
      case (Inr b')
      with Some have ev: "evolves b b'" by (auto dest: click_evolves)
      have "click_neighbors order n b' neighbors \<noteq> Some (Inl e)"
        using "4.IH"(2) [OF Some Inr] "4.prems" evolves_filled [OF ev]
        by (simp add: evolves_dims [OF ev])
      with Some Inr show ?thesis by simp
    qed
  qed
qed

lemma click_ok:
  assumes "board_filled b" "set_order order" "valid_position b (row, column)"
  shows "\<exists>b'. click order b row column = Some (Inr b') \<and> evolves b b'"
proof -
  obtain res where res: "click order b row column = Some res"
    using click_Some by blast
  have "res \<noteq> Inl e" for e
    using click_no_error(1) [OF assms, of "Suc (nat (rows b) * nat (columns b))" e] res
    by (simp add: click_def)
  then obtain b' where "res = Inr b'"
    by (cases res) auto
  with res show ?thesis
    using click_evolves(1) [of order "Suc (nat (rows b) * nat (columns b))" b row column b']
    by (simp add: click_def del: click_fuel.simps)
qed

lemma click_fuel_not_open:
  assumes "validate_cell b row column = Inr u" "cells b (row, column) = Some a_cell"
    "\<not> open_cell b (row, column)"
  shows "click_fuel order (Suc n) b row column = Some (Inr b)"
  using assms by (auto simp: open_cell_def split: FlagState.splits ClickState.splits)

lemma click_fuel_open:
  assumes "click_fuel order (Suc n) b row column = Some (Inr b')" "open_cell b (row, column)"
  shows "\<exists>a_cell. cells b (row, column) = Some a_cell \<and> valid_position b (row, column) \<and>
           evolves (b\<lparr>cells := (cells b)((row, column) \<mapsto> a_cell\<lparr>clicked := ClickedState\<rparr>)\<rparr>) b'"
  using assms
  by (auto simp: open_cell_def Let_def validate_cell_Inr_valid
        split: sum.splits option.splits CellClass.splits dest: click_evolves(2))

lemma click_fuel_reveals:
  assumes "click_fuel order (Suc n) b row column = Some (Inr b')" "open_cell b (row, column)"
  shows "is_revealed b' (row, column)"
proof -
  from click_fuel_open [OF assms] obtain a_cell where
    ev: "evolves (b\<lparr>cells := (cells b)((row, column) \<mapsto> a_cell\<lparr>clicked := ClickedState\<rparr>)\<rparr>) b'"
    by blast
  show ?thesis
    by (rule evolves_revealed [OF ev]) (simp add: is_revealed_def)
qed

lemma record_cell_same: "a_cell\<lparr>flag := flag a_cell\<rparr> = a_cell" "a_cell\<lparr>clicked := clicked a_cell\<rparr> = a_cell"
  by simp_all

lemma board_cells_same: "cells b p = Some a_cell \<Longrightarrow> b\<lparr>cells := (cells b)(p \<mapsto> a_cell)\<rparr> = b"
  by (simp add: map_upd_triv)

lemma place_bombs_filled: "board_filled (place_bombs b ps)"
  by (auto simp: board_filled_iff cells_place_bombs valid_position_def is_valid_row_def
        is_valid_column_def)

lemma Board_init_filled: "Board_init n_rows n_columns n_bombs placer = Inr b \<Longrightarrow> board_filled b"
  by (auto simp: Board_init_Inr place_bombs_filled)

lemma Board_init_fresh:
  assumes "Board_init n_rows n_columns n_bombs placer = Inr b" "cells b p = Some a_cell"
  shows "flag a_cell = NoFlag \<and> clicked a_cell = UnclikedState"
  using assms
  by (cases p) (auto simp: Board_init_Inr cells_place_bombs Cell_init_def build_plain_cell_def
        split: if_splits)

lemma put_flag_Inr:
  "put_flag b row column = Inr b' \<longleftrightarrow>
     (valid_position b (row, column) \<and>
      (\<exists>a_cell. cells b (row, column) = Some a_cell \<and>
         b' = b\<lparr>cells := (cells b)((row, column) \<mapsto> cell_put_flag a_cell)\<rparr>))"
  by (auto simp: put_flag_def validate_cell_valid split: sum.splits option.splits
        dest: validate_cell_Inr_valid)

lemma remove_flag_Inr:
  "remove_flag b row column = Inr b' \<longleftrightarrow>
     (valid_position b (row, column) \<and>
      (\<exists>a_cell. cells b (row, column) = Some a_cell \<and>
         b' = b\<lparr>cells := (cells b)((row, column) \<mapsto> cell_remove_flag a_cell)\<rparr>))"
  by (auto simp: remove_flag_def validate_cell_valid split: sum.splits option.splits
        dest: validate_cell_Inr_valid)

lemma put_flag_evolves_dims:
  assumes "put_flag b row column = Inr b'"
  shows "rows b' = rows b" "columns b' = columns b" "valid_position b' = valid_position b"
    "grid_positions b' = grid_positions b" "cells b' p = None \<longleftrightarrow> cells b p = None"
  using assms
  by (auto simp: put_flag_Inr valid_position_def is_valid_row_def is_valid_column_def
        grid_positions_def fun_eq_iff split: if_splits)

lemma remove_flag_evolves_dims:
  assumes "remove_flag b row column = Inr b'"
  shows "rows b' = rows b" "columns b' = columns b" "valid_position b' = valid_position b"
    "grid_positions b' = grid_positions b" "cells b' p = None \<longleftrightarrow> cells b p = None"
  using assms
  by (auto simp: remove_flag_Inr valid_position_def is_valid_row_def is_valid_column_def
        grid_positions_def fun_eq_iff split: if_splits)

lemma put_flag_filled: "put_flag b row column = Inr b' \<Longrightarrow> board_filled b \<Longrightarrow> board_filled b'"
  by (simp add: board_filled_def put_flag_evolves_dims list_all_iff)

lemma remove_flag_filled: "remove_flag b row column = Inr b' \<Longrightarrow> board_filled b \<Longrightarrow> board_filled b'"
  by (simp add: board_filled_def remove_flag_evolves_dims list_all_iff)

lemma click_flagged:
  assumes "valid_position b (row, column)" "is_flagged b (row, column)"
  shows "click order b row column = Some (Inr b)"
  using assms
  by (auto simp: click_def is_flagged_def validate_cell_valid split: option.splits)

lemma click_revealed:
  assumes "valid_position b (row, column)" "is_revealed b (row, column)"
  shows "click_fuel order (Suc n) b row column = Some (Inr b)"
  using assms
  by (auto simp: is_revealed_def validate_cell_valid split: option.splits FlagState.splits)

text \<open>
  Claim C2. On a board with a cell at every coordinate of the grid, at a coordinate of the
  grid whose cell is hidden: \<open>put_flag\<close> returns a board where the cell is hidden and
  flagged; \<open>click\<close> on that board returns the same board, without an exception;
  \<open>remove_flag\<close> and then \<open>click\<close> return a board where the cell is revealed.
\<close>

theorem flag_suppresses_reveal:
  assumes filled: "board_filled b" and order: "set_order order"
    and valid: "valid_position b (row, column)" and hidden: "is_hidden b (row, column)"
  shows "\<exists>b1 b2 b3.
           put_flag b row column = Inr b1 \<and>
           is_hidden b1 (row, column) \<and> is_flagged b1 (row, column) \<and>
           click order b1 row column = Some (Inr b1) \<and>
           remove_flag b1 row column = Inr b2 \<and>
           click order b2 row column = Some (Inr b3) \<and>
           is_revealed b3 (row, column)"
proof -
  from hidden obtain a_cell where a: "cells b (row, column) = Some a_cell"
    and u: "clicked a_cell = UnclikedState"
    by (auto simp: is_hidden_def split: option.splits)
  define b1 where "b1 = b\<lparr>cells := (cells b)((row, column) \<mapsto> cell_put_flag a_cell)\<rparr>"
  have p1: "put_flag b row column = Inr b1"
    using valid a by (simp add: put_flag_Inr b1_def)
  have v1: "valid_position b1 (row, column)"
    using valid by (simp add: put_flag_evolves_dims [OF p1])
  have h1: "is_hidden b1 (row, column)" and f1: "is_flagged b1 (row, column)"
    using u by (simp_all add: b1_def is_hidden_def is_flagged_def cell_put_flag_def)
  have c1: "click order b1 row column = Some (Inr b1)"
    using v1 f1 by (rule click_flagged)
  define b2 where "b2 = b1\<lparr>cells := (cells b1)((row, column) \<mapsto> cell_remove_flag (cell_put_flag a_cell))\<rparr>"
  have p2: "remove_flag b1 row column = Inr b2"
    using v1 by (simp add: remove_flag_Inr b2_def) (simp add: b1_def)
  have filled2: "board_filled b2"
    using p2 p1 filled by (blast intro: remove_flag_filled put_flag_filled)
  have v2: "valid_position b2 (row, column)"
    using v1 by (simp add: remove_flag_evolves_dims [OF p2])
  have o2: "open_cell b2 (row, column)"
    using u by (simp add: b2_def open_cell_def cell_remove_flag_def cell_put_flag_def)
  from click_ok [OF filled2 order v2] obtain b3 where c3: "click order b2 row column = Some (Inr b3)"
    by blast
  then have "is_revealed b3 (row, column)"
    unfolding click_def using o2 by (rule click_fuel_reveals)
  with p1 h1 f1 c1 p2 c3 show ?thesis
    by blast
qed

text \<open>
  Claim C5. On a board with a cell at every coordinate of the grid, \<open>click\<close> at a
  coordinate of the grid returns a board on which the same \<open>click\<close> returns that very
  board: the second click changes nothing, so every cell renders as after the first.
\<close>

theorem reveal_idempotent:
  assumes filled: "board_filled b" and order: "set_order order"
    and valid: "valid_position b (row, column)"
  shows "\<exists>b'. click order b row column = Some (Inr b') \<and>
              click order b' row column = Some (Inr b')"
proof -
  from click_ok [OF assms] obtain b' where c: "click order b row column = Some (Inr b')"
    and ev: "evolves b b'"
    by blast
  have v': "valid_position b' (row, column)"
    using valid by (simp add: evolves_dims [OF ev])
  have "click order b' row column = Some (Inr b')"
  proof (cases "open_cell b (row, column)")
    case True
    with c have "is_revealed b' (row, column)"
      unfolding click_def by (intro click_fuel_reveals)
    with v' show ?thesis
      unfolding click_def by (rule click_revealed)
  next
    case False
    from filled valid obtain a_cell where "cells b (row, column) = Some a_cell"
      by (auto simp: board_filled_iff)
    with False valid have "click order b row column = Some (Inr b)"
      unfolding click_def by (intro click_fuel_not_open) (auto simp: validate_cell_valid)
    with c show ?thesis by simp
  qed
  with c show ?thesis by blast
qed

declare str_nat.simps [simp del]

lemma example_board_dims [simp]: "rows example_board = 1" "columns example_board = 3"
  by (simp_all add: example_board_def)

lemma example_board_filled: "board_filled example_board"
  unfolding example_board_def by (rule place_bombs_filled)

lemma example_board_cells:
  "cells example_board (0, 0) = Some (Cell_init EmptyPlainCell)"
  "cells example_board (0, 1) = Some (Cell_init (PlainCell 1))"
  "cells example_board (0, 2) = Some (Cell_init BombCell)"
  by (simp_all add: example_board_def cells_place_bombs bomb_counter_def get_neighbors_def
        is_valid_row_def is_valid_column_def dom_bomb_cells_of build_plain_cell_def)

lemma set_order_id: "set_order (\<lambda>xs. xs)"
  by (simp add: set_order_def)

lemma set_order_rev: "set_order rev"
  by (simp add: set_order_def)

theorem flag_suppresses_reveal_witness:
  "\<exists>b1 b2 b3.
     put_flag example_board 0 1 = Inr b1 \<and>
     is_hidden b1 (0, 1) \<and> is_flagged b1 (0, 1) \<and>
     click rev b1 0 1 = Some (Inr b1) \<and>
     remove_flag b1 0 1 = Inr b2 \<and>
     click rev b2 0 1 = Some (Inr b3) \<and>
     is_revealed b3 (0, 1)"
proof -
  have "valid_position example_board (0, 1)"
    by (simp add: valid_position_def is_valid_row_def is_valid_column_def)
  moreover have "is_hidden example_board (0, 1)"
    by (simp add: is_hidden_def example_board_cells Cell_init_def)
  ultimately show ?thesis
    using example_board_filled set_order_rev by (rule flag_suppresses_reveal [rotated 2])
qed

theorem reveal_idempotent_witness:
  "\<exists>b'. click rev example_board 0 0 = Some (Inr b') \<and> click rev b' 0 0 = Some (Inr b')"
proof -
  have "valid_position example_board (0, 0)"
    by (simp add: valid_position_def is_valid_row_def is_valid_column_def)
  with example_board_filled set_order_rev show ?thesis
    by (rule reveal_idempotent)
qed

lemma row_column_message_differ: "row_message r n \<noteq> column_message c m"
  by (simp add: row_message_def column_message_def)

lemma str_int_examples: "str_int (- 1) = ''-1''" "str_int 1 = ''1''" "str_int 3 = ''3''" "str_int 12 = ''12''"
  by code_simp+


lemma click_invalid_row:
  "\<not> is_valid_row b row \<Longrightarrow>
     click order b row column = Some (Inl (InvalidCellException (row_message row (rows b))))"
  by (simp add: click_def validate_cell_def)

lemma click_invalid_column:
  "is_valid_row b row \<Longrightarrow> \<not> is_valid_column b column \<Longrightarrow>
     click order b row column = Some (Inl (InvalidCellException (column_message column (columns b))))"
  by (simp add: click_def validate_cell_def)

lemma put_flag_no_op:
  assumes "valid_position b (row, column)" "is_revealed b (row, column) \<or> is_flagged b (row, column)"
  shows "put_flag b row column = Inr b"
proof -
  from assms obtain a_cell where a: "cells b (row, column) = Some a_cell"
    and "clicked a_cell = ClickedState \<or> flag a_cell = Flag"
    by (auto simp: is_revealed_def is_flagged_def split: option.splits)
  then have "cell_put_flag a_cell = a_cell"
    by (auto simp: cell_put_flag_def split: ClickState.splits)
  with a assms(1) show ?thesis
    by (simp add: put_flag_Inr map_upd_triv)
qed

lemma remove_flag_no_op:
  assumes "valid_position b (row, column)" "cells b (row, column) \<noteq> None"
    "\<not> is_flagged b (row, column)"
  shows "remove_flag b row column = Inr b"
proof -
  from assms obtain a_cell where a: "cells b (row, column) = Some a_cell" and "flag a_cell = NoFlag"
    by (auto simp: is_flagged_def split: option.splits intro: FlagState.exhaust)
  then have "cell_remove_flag a_cell = a_cell"
    by (auto simp: cell_remove_flag_def)
  with a assms(1) show ?thesis
    by (simp add: remove_flag_Inr map_upd_triv)
qed

text \<open>
  Claim C6. On a board with a cell at every coordinate of the grid, \<open>click\<close>, \<open>put_flag\<close>
  and \<open>remove_flag\<close> raise \<open>InvalidCellException\<close> exactly when the row or the column
  is out of range: a row out of range gives the row message, a row in range with a column
  out of range gives the column message, and with both in range each of the three
  returns a board. Clicking or flagging a revealed cell, flagging a flagged cell and
  unflagging a cell without a flag return the board unchanged. The messages name the
  value and the range, and a row message is never a column message.
\<close>

theorem invalid_cell_exception_iff_out_of_range:
  assumes filled: "board_filled b" and order: "set_order order"
  shows "(\<not> is_valid_row b row \<longrightarrow>
            click order b row column = Some (Inl (InvalidCellException (row_message row (rows b)))) \<and>
            put_flag b row column = Inl (InvalidCellException (row_message row (rows b))) \<and>
            remove_flag b row column = Inl (InvalidCellException (row_message row (rows b)))) \<and>
         (is_valid_row b row \<and> \<not> is_valid_column b column \<longrightarrow>
            click order b row column = Some (Inl (InvalidCellException (column_message column (columns b)))) \<and>
            put_flag b row column = Inl (InvalidCellException (column_message column (columns b))) \<and>
            remove_flag b row column = Inl (InvalidCellException (column_message column (columns b)))) \<and>
         (is_valid_row b row \<and> is_valid_column b column \<longrightarrow>
            (\<exists>b'. click order b row column = Some (Inr b')) \<and>
            (\<exists>b'. put_flag b row column = Inr b') \<and>
            (\<exists>b'. remove_flag b row column = Inr b') \<and>
            (is_revealed b (row, column) \<longrightarrow>
               click order b row column = Some (Inr b) \<and> put_flag b row column = Inr b) \<and>
            (is_flagged b (row, column) \<longrightarrow> put_flag b row column = Inr b) \<and>
            (\<not> is_flagged b (row, column) \<longrightarrow> remove_flag b row column = Inr b)) \<and>
         row_message row (rows b) = ''Row '' @ str_int row @ '' is not in range [0, '' @ str_int (rows b) @ '')'' \<and>
         column_message column (columns b) =
           ''Column '' @ str_int column @ '' is not in range [0, '' @ str_int (columns b) @ '')'' \<and>
         (\<forall>r n c m. row_message r n \<noteq> column_message c m)"
proof (intro conjI impI allI)
  assume "\<not> is_valid_row b row"
  then show "click order b row column = Some (Inl (InvalidCellException (row_message row (rows b))))"
    "put_flag b row column = Inl (InvalidCellException (row_message row (rows b)))"
    "remove_flag b row column = Inl (InvalidCellException (row_message row (rows b)))"
    by (simp_all add: click_invalid_row put_flag_def remove_flag_def validate_cell_def)
next
  assume "is_valid_row b row \<and> \<not> is_valid_column b column"
  then show "click order b row column = Some (Inl (InvalidCellException (column_message column (columns b))))"
    "put_flag b row column = Inl (InvalidCellException (column_message column (columns b)))"
    "remove_flag b row column = Inl (InvalidCellException (column_message column (columns b)))"
    by (simp_all add: click_invalid_column put_flag_def remove_flag_def validate_cell_def)
next
  assume "is_valid_row b row \<and> is_valid_column b column"
  then have valid: "valid_position b (row, column)"
    by (simp add: valid_position_def)
  with filled obtain a_cell where a: "cells b (row, column) = Some a_cell"
    by (auto simp: board_filled_iff)
  show "\<exists>b'. click order b row column = Some (Inr b')"
    using click_ok [OF filled order valid] by blast
  show "\<exists>b'. put_flag b row column = Inr b'" "\<exists>b'. remove_flag b row column = Inr b'"
    using valid a by (simp_all add: put_flag_Inr remove_flag_Inr)
  show "put_flag b row column = Inr b" if "is_flagged b (row, column)"
    using valid that by (simp add: put_flag_no_op)
  show "remove_flag b row column = Inr b" if "\<not> is_flagged b (row, column)"
    using valid a that by (simp add: remove_flag_no_op)
  {
    assume r: "is_revealed b (row, column)"
    show "click order b row column = Some (Inr b)"
      unfolding click_def using valid r by (rule click_revealed)
    show "put_flag b row column = Inr b"
      using valid r by (simp add: put_flag_no_op)
  }
qed (simp_all add: row_message_def column_message_def)

theorem invalid_cell_exception_iff_out_of_range_witness:
  "click rev example_board (- 1) 0 = Some (Inl (InvalidCellException ''Row -1 is not in range [0, 1)'')) \<and>
   put_flag example_board 0 3 = Inl (InvalidCellException ''Column 3 is not in range [0, 3)'') \<and>
   (\<exists>b'. click rev example_board 0 2 = Some (Inr b')) \<and>
   remove_flag example_board 0 2 = Inr example_board"
proof -
  note inst = invalid_cell_exception_iff_out_of_range [OF example_board_filled set_order_rev]
  have 1: "\<not> is_valid_row example_board (- 1)"
    by (simp add: is_valid_row_def)
  have 2: "is_valid_row example_board 0 \<and> \<not> is_valid_column example_board 3"
    by (simp add: is_valid_row_def is_valid_column_def)
  have 3: "is_valid_row example_board 0 \<and> is_valid_column example_board 2"
    by (simp add: is_valid_row_def is_valid_column_def)
  have 4: "\<not> is_flagged example_board (0, 2)"
    by (simp add: is_flagged_def example_board_cells Cell_init_def)
  have m1: "row_message (- 1) 1 = ''Row -1 is not in range [0, 1)''"
    and m2: "column_message 3 3 = ''Column 3 is not in range [0, 3)''"
    by (simp_all add: row_message_def column_message_def str_int_examples)
  from inst [of "- 1" 0] 1 m1
  have "click rev example_board (- 1) 0 = Some (Inl (InvalidCellException ''Row -1 is not in range [0, 1)''))"
    by simp
  moreover from inst [of 0 3] 2 m2
  have "put_flag example_board 0 3 = Inl (InvalidCellException ''Column 3 is not in range [0, 3)'')"
    by simp
  moreover from inst [of 0 2] 3 4
  have "(\<exists>b'. click rev example_board 0 2 = Some (Inr b'))" "remove_flag example_board 0 2 = Inr example_board"
    by blast+
  ultimately show ?thesis
    by blast
qed

section \<open>Properties of sequences of operations\<close>

lemma run_append: "run order b (ops @ ops') = run order (run order b ops) ops'"
  by (induction ops arbitrary: b) auto

lemma run_invariant:
  assumes "P b"
    and "\<And>b op b'. P b \<Longrightarrow> apply_operation order b op = Some (Inr b') \<Longrightarrow> P b'"
  shows "P (run order b ops)"
  using assms(1)
proof (induction ops arbitrary: b)
  case Nil
  then show ?case by simp
next
  case (Cons op ops)
  show ?case
  proof (cases "apply_operation order b op")
    case None
    with Cons show ?thesis by simp
  next
    case (Some r)
    with Cons assms(2) show ?thesis by (cases r) auto
  qed
qed

lemma apply_operation_cases:
  assumes "apply_operation order b op = Some (Inr b')"
  obtains (Click) "evolves b b'"
  | (PutFlag) p a_cell where "cells b p = Some a_cell"
      "b' = b\<lparr>cells := (cells b)(p \<mapsto> cell_put_flag a_cell)\<rparr>"
  | (RemoveFlag) p a_cell where "cells b p = Some a_cell"
      "b' = b\<lparr>cells := (cells b)(p \<mapsto> cell_remove_flag a_cell)\<rparr>"
proof (cases op)
  case (Click row column)
  with assms have "evolves b b'"
    using click_evolves(1) [of order _ b row column b'] by (simp add: click_def del: click_fuel.simps)
  then show ?thesis by (rule that(1))
next
  case (PutFlag row column)
  with assms show ?thesis by (auto simp: put_flag_Inr intro: that(2))
next
  case (RemoveFlag row column)
  with assms show ?thesis by (auto simp: remove_flag_Inr intro: that(3))
qed

lemma apply_operation_class:
  assumes "apply_operation order b op = Some (Inr b')"
  shows "has_class b' p k = has_class b p k"
  using assms
proof (cases rule: apply_operation_cases)
  case Click
  then show ?thesis by (rule evolves_class)
next
  case (PutFlag q a_cell)
  then show ?thesis
    by (auto simp: has_class_def cell_put_flag_def split: ClickState.splits)
next
  case (RemoveFlag q a_cell)
  then show ?thesis
    by (auto simp: has_class_def cell_remove_flag_def)
qed

lemma apply_operation_revealed:
  assumes "apply_operation order b op = Some (Inr b')" "is_revealed b p"
  shows "is_revealed b' p"
  using assms
proof (cases rule: apply_operation_cases)
  case Click
  then show ?thesis using assms(2) by (rule evolves_revealed)
next
  case (PutFlag q a_cell)
  with assms(2) show ?thesis
    by (auto simp: is_revealed_def cell_put_flag_def split: ClickState.splits)
next
  case (RemoveFlag q a_cell)
  with assms(2) show ?thesis
    by (auto simp: is_revealed_def cell_remove_flag_def)
qed

lemma evolves_revealed_unflagged:
  assumes "evolves b b'" "\<forall>p. is_revealed b p \<longrightarrow> \<not> is_flagged b p"
  shows "is_revealed b' p \<longrightarrow> \<not> is_flagged b' p"
  using evolves_cell [OF assms(1), of p] assms(2) [rule_format, of p]
  by (cases "cells b p"; cases "cells b' p")
     (auto simp: is_revealed_def is_flagged_def cell_evolves_def)

lemma apply_operation_revealed_unflagged:
  assumes "apply_operation order b op = Some (Inr b')"
    "\<forall>p. is_revealed b p \<longrightarrow> \<not> is_flagged b p"
  shows "\<forall>p. is_revealed b' p \<longrightarrow> \<not> is_flagged b' p"
  using assms(1)
proof (cases rule: apply_operation_cases)
  case Click
  then show ?thesis using assms(2) evolves_revealed_unflagged by blast
next
  case (PutFlag q a_cell)
  show ?thesis
  proof
    fix p
    from assms(2) have "is_revealed b p \<longrightarrow> \<not> is_flagged b p" by blast
    with PutFlag show "is_revealed b' p \<longrightarrow> \<not> is_flagged b' p"
      by (auto simp: is_revealed_def is_flagged_def cell_put_flag_def split: ClickState.splits if_splits)
  qed
next
  case (RemoveFlag q a_cell)
  show ?thesis
  proof
    fix p
    from assms(2) have "is_revealed b p \<longrightarrow> \<not> is_flagged b p" by blast
    with RemoveFlag show "is_revealed b' p \<longrightarrow> \<not> is_flagged b' p"
      by (auto simp: is_revealed_def is_flagged_def cell_remove_flag_def split: if_splits)
  qed
qed

lemma apply_operation_filled:
  assumes "apply_operation order b op = Some (Inr b')" "board_filled b"
  shows "board_filled b'"
  using assms
  by (cases op)
     (auto simp: click_def simp del: click_fuel.simps
        dest: click_evolves(1) evolves_filled put_flag_filled remove_flag_filled)

lemma run_filled: "board_filled b \<Longrightarrow> board_filled (run order b ops)"
  by (rule run_invariant) (auto dest: apply_operation_filled)

lemma run_class: "has_class (run order b ops) p k = has_class b p k"
  by (rule run_invariant [where P = "\<lambda>b'. has_class b' p k = has_class b p k"])
     (auto simp: apply_operation_class)

lemma run_revealed: "is_revealed b p \<Longrightarrow> is_revealed (run order b ops) p"
  by (rule run_invariant [where P = "\<lambda>b'. is_revealed b' p"])
     (auto dest: apply_operation_revealed)

lemma run_revealed_unflagged:
  assumes "\<forall>p. is_revealed b p \<longrightarrow> \<not> is_flagged b p"
  shows "\<forall>p. is_revealed (run order b ops) p \<longrightarrow> \<not> is_flagged (run order b ops) p"
  using assms
  by (rule run_invariant [where P = "\<lambda>b'. \<forall>p. is_revealed b' p \<longrightarrow> \<not> is_flagged b' p"])
     (rule apply_operation_revealed_unflagged)

lemma Board_init_bombs:
  assumes "Board_init n_rows n_columns n_bombs placer = Inr b"
    "placer n_rows n_columns n_bombs = Inr ps"
  shows "has_class b p BombCell \<longleftrightarrow> p \<in> set ps"
  using assms
  by (cases p)
     (auto simp: Board_init_Inr has_class_def cells_place_bombs Cell_init_def build_plain_cell_def)

lemma example_board_init: "Board_init 1 3 1 (\<lambda>_ _ _. Inr [(0, 2)]) = Inr example_board"
  by (simp add: Board_init_def example_board_def)

lemma distinct_grid:
  assumes "distinct rs" "distinct cs"
  shows "distinct (concat (map (\<lambda>r. map (\<lambda>c. (r, c)) cs) rs))"
  using assms(1)
proof (induction rs)
  case Nil
  then show ?case by simp
next
  case (Cons r rs)
  then show ?case
    using assms(2) by (auto simp: distinct_map inj_on_def)
qed

lemma random_placer_positions:
  assumes pick: "picks_sample pick" and nonneg: "0 \<le> n_bombs"
    and le: "n_bombs \<le> int (nat n_rows * nat n_columns)"
  shows "\<exists>ps. RandomBombPlacerStrategy pick n_rows n_columns n_bombs = Inr ps \<and>
              distinct ps \<and> int (length ps) = n_bombs \<and>
              (\<forall>p \<in> set ps. 0 \<le> fst p \<and> fst p < n_rows \<and> 0 \<le> snd p \<and> snd p < n_columns)"
proof -
  define positions where
    "positions = concat (map (\<lambda>x. map (\<lambda>y. (x, y)) (range_int n_columns)) (range_int n_rows))"
  define places where "places = pick (length positions) (nat n_bombs)"
  define ps where "ps = map (\<lambda>i. positions ! i) places"
  have len: "length positions = nat n_rows * nat n_columns"
    by (simp add: positions_def length_concat comp_def length_range_int sum_list_triv)
  have set_pos: "set positions = {0..<n_rows} \<times> {0..<n_columns}"
    by (auto simp: positions_def set_range_int)
  have dist_pos: "distinct positions"
    unfolding positions_def by (intro distinct_grid distinct_range_int)
  have k: "nat n_bombs \<le> length positions"
    unfolding len using le nonneg by linarith
  with pick have places: "distinct places" "length places = nat n_bombs" "\<forall>i \<in> set places. i < length positions"
    unfolding picks_sample_def places_def by blast+
  have res: "RandomBombPlacerStrategy pick n_rows n_columns n_bombs = Inr ps"
    using nonneg le
    by (simp add: RandomBombPlacerStrategy_def Let_def positions_def [symmetric] places_def ps_def len)
  have "inj_on (\<lambda>i. positions ! i) (set places)"
    using dist_pos places(3) by (auto simp: inj_on_def nth_eq_iff_index_eq)
  with places(1) have d: "distinct ps"
    by (simp add: ps_def distinct_map)
  have l: "int (length ps) = n_bombs"
    using places(2) nonneg by (simp add: ps_def)
  have "set ps \<subseteq> set positions"
    using places(3) by (auto simp: ps_def)
  with set_pos have "\<forall>p \<in> set ps. 0 \<le> fst p \<and> fst p < n_rows \<and> 0 \<le> snd p \<and> snd p < n_columns"
    by auto
  with res d l show ?thesis
    by blast
qed

text \<open>
  Claim C7. When the placer returns as many distinct coordinates of the grid as there are
  bombs, the constructed board has exactly that many bomb cells, all of them in the grid,
  and the number is the same after any sequence of \<open>click\<close>, \<open>put_flag\<close> and
  \<open>remove_flag\<close>.
\<close>

theorem bomb_count_invariant:
  assumes placer: "bomb_placer n_rows n_columns n_bombs = Inr ps"
    and dist: "distinct ps" and len: "int (length ps) = n_bombs"
    and inb: "\<forall>p \<in> set ps. 0 \<le> fst p \<and> fst p < n_rows \<and> 0 \<le> snd p \<and> snd p < n_columns"
    and order: "set_order order"
  shows "\<exists>b. Board_init n_rows n_columns n_bombs bomb_placer = Inr b \<and>
             bombs b = n_bombs \<and>
             int (bomb_cell_count b) = n_bombs \<and>
             (\<forall>p. has_class b p BombCell \<longrightarrow> valid_position b p) \<and>
             (\<forall>ops. bomb_cell_count (run order b ops) = bomb_cell_count b)"
proof -
  from placer obtain b where b: "Board_init n_rows n_columns n_bombs bomb_placer = Inr b"
    by (simp add: Board_init_def)
  have dims: "rows b = n_rows" "columns b = n_columns" "bombs b = n_bombs"
    using b by (auto simp: Board_init_Inr)
  have bombs_eq: "{p. has_class b p BombCell} = set ps"
    using Board_init_bombs [OF b placer] by blast
  then have "bomb_cell_count b = length ps"
    using dist by (simp add: bomb_cell_count_def distinct_card)
  with len have count: "int (bomb_cell_count b) = n_bombs"
    by simp
  have grid: "\<forall>p. has_class b p BombCell \<longrightarrow> valid_position b p"
  proof (intro allI impI)
    fix p
    assume "has_class b p BombCell"
    then have "p \<in> set ps"
      using Board_init_bombs [OF b placer] by blast
    with inb have "0 \<le> fst p \<and> fst p < n_rows \<and> 0 \<le> snd p \<and> snd p < n_columns"
      by blast
    then show "valid_position b p"
      by (simp add: valid_position_def is_valid_row_def is_valid_column_def dims)
  qed
  have "bomb_cell_count (run order b ops) = bomb_cell_count b" for ops
    by (simp add: bomb_cell_count_def run_class)
  with b dims count grid show ?thesis
    by blast
qed

theorem bomb_count_invariant_witness:
  "\<exists>b. Board_init 1 3 1 (RandomBombPlacerStrategy (\<lambda>n k. [0..<k])) = Inr b \<and> bombs b = 1 \<and>
       int (bomb_cell_count b) = 1 \<and>
       bomb_cell_count (run rev b [Click 0 0, PutFlag 0 2, Click 0 2, RemoveFlag 0 2, Click 0 2]) =
         bomb_cell_count b"
proof -
  have "picks_sample (\<lambda>n k. [0..<k])"
    by (simp add: picks_sample_def)
  then have "\<exists>ps. RandomBombPlacerStrategy (\<lambda>n k. [0..<k]) 1 3 1 = Inr ps \<and>
              distinct ps \<and> int (length ps) = 1 \<and>
              (\<forall>p \<in> set ps. 0 \<le> fst p \<and> fst p < 1 \<and> 0 \<le> snd p \<and> snd p < 3)"
    by (rule random_placer_positions) simp_all
  then obtain ps where ps: "RandomBombPlacerStrategy (\<lambda>n k. [0..<k]) 1 3 1 = Inr ps"
    "distinct ps" "int (length ps) = 1"
    "\<forall>p \<in> set ps. 0 \<le> fst p \<and> fst p < 1 \<and> 0 \<le> snd p \<and> snd p < 3"
    by blast
  from bomb_count_invariant
    [where bomb_placer = "RandomBombPlacerStrategy (\<lambda>n k. [0..<k])" and n_rows = 1
       and n_columns = 3 and n_bombs = 1 and ps = ps and order = rev, OF ps set_order_rev]
  show ?thesis
    by blast
qed

text \<open>
  Claim C8. A cell that is revealed after a sequence of operations is revealed, and so
  not hidden, after any longer sequence.
\<close>

theorem reveal_monotonic:
  assumes filled: "board_filled b" and order: "set_order order"
    and revealed: "is_revealed (run order b ops) p"
  shows "is_revealed (run order b (ops @ ops')) p \<and> \<not> is_hidden (run order b (ops @ ops')) p"
proof -
  have "is_revealed (run order b (ops @ ops')) p"
    using revealed by (simp add: run_append run_revealed)
  then show ?thesis
    by (auto simp: is_revealed_def is_hidden_def split: option.splits)
qed

lemma example_click_0_1:
  "click order example_board 0 1 =
     Some (Inr (example_board\<lparr>cells := (cells example_board)
        ((0, 1) \<mapsto> \<lparr>flag = NoFlag, clicked = ClickedState, cls = PlainCell 1\<rparr>)\<rparr>))"
  by (simp add: click_def validate_cell_def is_valid_row_def is_valid_column_def
        example_board_cells Cell_init_def eval_nat_numeral)

theorem reveal_monotonic_witness:
  "is_revealed (run rev example_board ([Click 0 1] @ [PutFlag 0 1, RemoveFlag 0 1, Click 0 1, Click 0 0])) (0, 1) \<and>
   \<not> is_hidden (run rev example_board ([Click 0 1] @ [PutFlag 0 1, RemoveFlag 0 1, Click 0 1, Click 0 0])) (0, 1)"
proof -
  have "is_revealed (run rev example_board [Click 0 1]) (0, 1)"
    by (simp add: example_click_0_1 is_revealed_def)
  with example_board_filled set_order_rev show ?thesis
    by (rule reveal_monotonic)
qed

text \<open>
  Claim C10. In every state reached from a constructed board by a sequence of
  operations, a revealed cell has no flag.
\<close>

theorem revealed_never_flagged:
  assumes init: "Board_init n_rows n_columns n_bombs bomb_placer = Inr b"
    and order: "set_order order"
    and revealed: "is_revealed (run order b ops) p"
  shows "\<not> is_flagged (run order b ops) p"
proof -
  have "\<forall>p. is_revealed b p \<longrightarrow> \<not> is_flagged b p"
    using Board_init_fresh [OF init] by (auto simp: is_revealed_def split: option.splits)
  then have "\<forall>p. is_revealed (run order b ops) p \<longrightarrow> \<not> is_flagged (run order b ops) p"
    by (rule run_revealed_unflagged)
  with revealed show ?thesis
    by blast
qed

theorem revealed_never_flagged_witness:
  "\<not> is_flagged (run rev example_board [Click 0 1, PutFlag 0 1]) (0, 1)"
proof -
  have "is_revealed (run rev example_board [Click 0 1]) (0, 1)"
    by (simp add: example_click_0_1 is_revealed_def)
  then have "is_revealed (run rev example_board ([Click 0 1] @ [PutFlag 0 1])) (0, 1)"
    using run_revealed by (simp only: run_append)
  then have "is_revealed (run rev example_board [Click 0 1, PutFlag 0 1]) (0, 1)"
    by simp
  with example_board_init set_order_rev show ?thesis
    by (rule revealed_never_flagged)
qed

section \<open>Properties of the iteration\<close>

lemma yield_cells_filled:
  assumes "\<forall>p \<in> set ps. cells b p \<noteq> None"
  shows "yield_cells b ps = (map (\<lambda>p. (fst p, snd p, the (cells b p))) ps, None)"
  using assms by (induction ps) auto

lemma sorted_wrt_grid:
  fixes rs cs :: "int list"
  assumes "sorted_wrt (<) rs" "sorted_wrt (<) cs"
  shows "sorted_wrt (\<lambda>p q. fst p < fst q \<or> (fst p = fst q \<and> snd p < snd q))
           (concat (map (\<lambda>r. map (\<lambda>c. (r, c)) cs) rs))"
  using assms(1)
proof (induction rs)
  case Nil
  then show ?case by simp
next
  case (Cons r rs)
  have "sorted_wrt (\<lambda>p q. fst p < fst q \<or> (fst p = fst q \<and> snd p < snd q)) (map (\<lambda>c. (r, c)) cs)"
    using assms(2) by (simp add: sorted_wrt_map)
  with Cons show ?case
    by (auto simp: sorted_wrt_append)
qed

lemma sorted_wrt_range_int: "sorted_wrt (<) (range_int n)"
  by (simp add: range_int_def strict_sorted_iff)

lemma length_grid_positions: "length (grid_positions b) = nat (rows b) * nat (columns b)"
  by (simp add: grid_positions_def length_concat comp_def length_range_int sum_list_triv)

text \<open>
  Claim C9. On a board with a cell at every coordinate of the grid the iteration ends
  without an exception and leaves the board as it was. It yields one triple for each
  coordinate of the grid, with the cell of that coordinate: as many triples as the
  product of the numbers of rows and columns (each counted as 0 when negative), rows
  ascending and columns ascending within a row. Iterating again yields the same.
\<close>

theorem iteration_row_major:
  assumes filled: "board_filled b"
  shows "\<exists>ys. board_iter b = (b, ys, None) \<and>
           map (\<lambda>(row, col, a_cell). (row, col)) ys = grid_positions b \<and>
           (\<forall>(row, col, a_cell) \<in> set ys. cells b (row, col) = Some a_cell) \<and>
           length ys = nat (rows b) * nat (columns b) \<and>
           (0 \<le> rows b \<and> 0 \<le> columns b \<longrightarrow> int (length ys) = rows b * columns b) \<and>
           set (grid_positions b) = {0..<rows b} \<times> {0..<columns b} \<and>
           sorted_wrt (\<lambda>p q. fst p < fst q \<or> (fst p = fst q \<and> snd p < snd q)) (grid_positions b) \<and>
           board_iter (fst (board_iter b)) = board_iter b"
proof -
  define ys where "ys = map (\<lambda>p. (fst p, snd p, the (cells b p))) (grid_positions b)"
  have some: "\<forall>p \<in> set (grid_positions b). cells b p \<noteq> None"
    using filled by (simp add: board_filled_def list_all_iff)
  then have iter: "board_iter b = (b, ys, None)"
    by (simp add: board_iter_def yield_cells_filled ys_def)
  have coords: "map (\<lambda>(row, col, a_cell). (row, col)) ys = grid_positions b"
    by (simp add: ys_def comp_def)
  have cell: "\<forall>(row, col, a_cell) \<in> set ys. cells b (row, col) = Some a_cell"
    using some by (auto simp: ys_def)
  have len: "length ys = nat (rows b) * nat (columns b)"
    by (simp add: ys_def length_grid_positions)
  have len': "0 \<le> rows b \<and> 0 \<le> columns b \<longrightarrow> int (length ys) = rows b * columns b"
    by (simp add: len)
  have grid: "set (grid_positions b) = {0..<rows b} \<times> {0..<columns b}"
    by (auto simp: grid_positions_def set_range_int)
  have sorted: "sorted_wrt (\<lambda>p q. fst p < fst q \<or> (fst p = fst q \<and> snd p < snd q)) (grid_positions b)"
    unfolding grid_positions_def by (intro sorted_wrt_grid sorted_wrt_range_int)
  have again: "board_iter (fst (board_iter b)) = board_iter b"
    by (simp add: board_iter_def)
  from iter coords cell len len' grid sorted again show ?thesis
    by blast
qed

theorem iteration_row_major_witness:
  "\<exists>ys. board_iter example_board = (example_board, ys, None) \<and>
       map (\<lambda>(row, col, a_cell). (row, col)) ys = [(0, 0), (0, 1), (0, 2)] \<and>
       length ys = 3"
proof -
  have g: "grid_positions example_board = [(0, 0), (0, 1), (0, 2)]"
    by (simp add: grid_positions_def range_int_def upto_rec1)
  from iteration_row_major [OF example_board_filled] obtain ys where
    "board_iter example_board = (example_board, ys, None)"
    "map (\<lambda>(row, col, a_cell). (row, col)) ys = grid_positions example_board"
    "length ys = nat (rows example_board) * nat (columns example_board)"
    by blast
  then show ?thesis
    by (auto simp: g)
qed

section \<open>Termination of the cascade\<close>

lemma click_log_erase:
  "map_option (map_sum id fst) (click_log order n b row column) = click_fuel order n b row column"
  "map_option (map_sum id fst) (click_neighbors_log order n b ps) = click_neighbors order n b ps"
proof (induction order n b row column and order n b ps
       rule: click_fuel_click_neighbors.induct)
  case (1 order b row column)
  then show ?case by simp
next
  case (2 order n b row column)
  show ?case
  proof (cases "validate_cell b row column")
    case (Inl e)
    then show ?thesis by simp
  next
    case (Inr u)
    show ?thesis
    proof (cases "cells b (row, column)")
      case None
      with Inr show ?thesis by simp
    next
      case (Some a_cell)
      show ?thesis
      proof (cases "flag a_cell = NoFlag \<and> clicked a_cell = UnclikedState \<and> cls a_cell = EmptyPlainCell")
        case True
        let ?b' = "b\<lparr>cells := (cells b)((row, column) \<mapsto> a_cell\<lparr>clicked := ClickedState\<rparr>)\<rparr>"
        have "map_option (map_sum id fst) (click_neighbors_log order n ?b' (order (get_neighbors b row column)))
                = click_neighbors order n ?b' (order (get_neighbors b row column))"
          using "2.IH" [OF Inr Some _ _ refl] True by blast
        with Inr Some True show ?thesis
          by (auto simp: Let_def split: option.splits sum.splits)
      next
        case False
        with Inr Some show ?thesis
          by (auto simp: Let_def split: FlagState.splits ClickState.splits CellClass.splits)
      qed
    qed
  qed
next
  case (3 order n b)
  then show ?case by simp
next
  case (4 order n b each neighbors)
  have c: "click_fuel order n b (fst each) (snd each) =
             map_option (map_sum id fst) (click_log order n b (fst each) (snd each))"
    by (rule "4.IH"(1) [symmetric])
  show ?case
  proof (cases "click_log order n b (fst each) (snd each)")
    case None
    with c show ?thesis by (simp del: click_fuel.simps click_log.simps)
  next
    case (Some r)
    show ?thesis
    proof (cases r)
      case (Inl e)
      with Some c show ?thesis
        by (simp del: click_fuel.simps click_log.simps)
    next
      case (Inr bl)
      obtain b' log where bl: "bl = (b', log)" by (cases bl)
      with Some Inr c have c': "click_fuel order n b (fst each) (snd each) = Some (Inr b')"
        by (simp del: click_fuel.simps click_log.simps)
      from "4.IH"(2) [OF c' refl] Some Inr bl c' show ?thesis
        by (auto simp del: click_fuel.simps click_log.simps split: option.splits sum.splits)
    qed
  qed
qed

lemma click_log_fuel:
  assumes "click_log order n b row column = Some (Inr (b', log))"
  shows "click_fuel order n b row column = Some (Inr b')"
  using click_log_erase(1) [of order n b row column] assms by simp

lemma click_neighbors_log_fuel:
  assumes "click_neighbors_log order n b ps = Some (Inr (b', log))"
  shows "click_neighbors order n b ps = Some (Inr b')"
  using click_log_erase(2) [of order n b ps] assms by simp

lemma evolves_open_revealed:
  assumes "evolves b b'" "open_cell b p" "\<not> open_cell b' p"
  shows "is_revealed b' p"
  using evolves_cell [OF assms(1), of p] assms(2,3)
  by (cases "cells b p"; cases "cells b' p")
     (auto simp: open_cell_def is_revealed_def cell_evolves_def)

lemma revealed_not_open: "is_revealed b p \<Longrightarrow> \<not> open_cell b p"
  by (auto simp: is_revealed_def open_cell_def split: option.splits)

lemma open_cell_update:
  "open_cell (b\<lparr>cells := (cells b)(p \<mapsto> a_cell\<lparr>clicked := ClickedState\<rparr>)\<rparr>) q \<longleftrightarrow>
     q \<noteq> p \<and> open_cell b q"
  by (auto simp: open_cell_def)

lemma click_log_sound:
  "click_log order n b row column = Some (Inr (b', log)) \<Longrightarrow>
     distinct log \<and> (\<forall>p \<in> set log. open_cell b p \<and> is_revealed b' p) \<and>
     (\<forall>p. p \<notin> set log \<longrightarrow> cells b' p = cells b p)"
  "click_neighbors_log order n b ps = Some (Inr (b', log)) \<Longrightarrow>
     distinct log \<and> (\<forall>p \<in> set log. open_cell b p \<and> is_revealed b' p) \<and>
     (\<forall>p. p \<notin> set log \<longrightarrow> cells b' p = cells b p)"
proof (induction order n b row column and order n b ps arbitrary: b' log and b' log
       rule: click_log_click_neighbors_log.induct)
  case (1 order b row column)
  then show ?case by simp
next
  case (2 order n b row column)
  from "2.prems" obtain u where v: "validate_cell b row column = Inr u"
    by (auto split: sum.splits)
  from "2.prems" v obtain a_cell where c: "cells b (row, column) = Some a_cell"
    by (auto split: option.splits)
  show ?case
  proof (cases "flag a_cell = NoFlag \<and> clicked a_cell = UnclikedState")
    case False
    with "2.prems" v c show ?thesis
      by (auto split: FlagState.splits ClickState.splits)
  next
    case isopen: True
    let ?b0 = "b\<lparr>cells := (cells b)((row, column) \<mapsto> a_cell\<lparr>clicked := ClickedState\<rparr>)\<rparr>"
    have o: "open_cell b (row, column)"
      using c isopen by (simp add: open_cell_def)
    have r0: "is_revealed ?b0 (row, column)"
      by (simp add: is_revealed_def)
    show ?thesis
    proof (cases "cls a_cell = EmptyPlainCell")
      case False
      with "2.prems" v c isopen have "b' = ?b0" "log = [(row, column)]"
        by (auto simp: Let_def split: CellClass.splits)
      with o r0 show ?thesis by auto
    next
      case True
      with "2.prems" v c isopen obtain log' where
        nb: "click_neighbors_log order n ?b0 (order (get_neighbors b row column)) = Some (Inr (b', log'))"
        and log: "log = (row, column) # log'"
        by (auto simp: Let_def split: option.splits sum.splits)
      from "2.IH" [OF v c _ _ refl True nb] isopen
      have d: "distinct log'" and s: "\<forall>p \<in> set log'. open_cell ?b0 p \<and> is_revealed b' p"
        and f: "\<forall>p. p \<notin> set log' \<longrightarrow> cells b' p = cells ?b0 p"
        by blast+
      have ev: "evolves ?b0 b'"
        using click_neighbors_log_fuel [OF nb] by (rule click_evolves(2))
      have notin: "(row, column) \<notin> set log'"
        using s by (auto simp: open_cell_update)
      have "is_revealed b' (row, column)"
        using ev r0 by (rule evolves_revealed)
      with d s f notin o show ?thesis
        by (auto simp: log open_cell_update)
    qed
  qed
next
  case (3 order n b)
  then show ?case by simp
next
  case (4 order n b each neighbors)
  from "4.prems" obtain b1 log1 log2 where
    c1: "click_log order n b (fst each) (snd each) = Some (Inr (b1, log1))"
    and c2: "click_neighbors_log order n b1 neighbors = Some (Inr (b', log2))"
    and log: "log = log1 @ log2"
    by (auto simp del: click_log.simps split: option.splits sum.splits)
  from "4.IH"(1) [OF c1]
  have d1: "distinct log1" and s1: "\<forall>p \<in> set log1. open_cell b p \<and> is_revealed b1 p"
    and f1: "\<forall>p. p \<notin> set log1 \<longrightarrow> cells b1 p = cells b p"
    by blast+
  from "4.IH"(2) [OF c1 refl refl c2]
  have d2: "distinct log2" and s2: "\<forall>p \<in> set log2. open_cell b1 p \<and> is_revealed b' p"
    and f2: "\<forall>p. p \<notin> set log2 \<longrightarrow> cells b' p = cells b1 p"
    by blast+
  have ev1: "evolves b b1"
    using click_log_fuel [OF c1] by (rule click_evolves(1))
  have ev2: "evolves b1 b'"
    using click_neighbors_log_fuel [OF c2] by (rule click_evolves(2))
  have disj: "set log1 \<inter> set log2 = {}"
    using s1 s2 by (auto dest: revealed_not_open)
  have "\<forall>p \<in> set log1. is_revealed b' p"
    using s1 ev2 by (auto intro: evolves_revealed)
  moreover have "\<forall>p \<in> set log2. open_cell b p"
    using s2 ev1 by (auto intro: evolves_open)
  ultimately show ?case
    using d1 d2 disj s1 s2 f1 f2 by (auto simp: log)
qed


lemma click_log_returns:
  assumes "hidden_count b < n"
  shows "\<exists>res. click_log order n b row column = Some res"
proof -
  from click_returns(1) [OF assms] obtain res where "click_fuel order n b row column = Some res"
    by blast
  then show ?thesis
    using click_log_erase(1) [of order n b row column] by (cases "click_log order n b row column") auto
qed

lemma hidden_not_open_same:
  assumes "is_hidden b p" "is_revealed b' p"
  shows "cells b' p \<noteq> cells b p"
  using assms by (auto simp: is_hidden_def is_revealed_def split: option.splits)

text \<open>
  Claim C4. \<open>click\<close> returns on every board and at every coordinate, and every fuel
  above the number of hidden cells without a flag gives the same result, so the nesting
  of \<open>Board.click\<close> never goes deeper than that. The log of a call has no duplicates
  and holds exactly the coordinates that were hidden before and are revealed after: each
  cell is assigned \<open>ClickedState\<close> at most once. A click on a revealed cell returns the
  board with one call of \<open>Board.click\<close>, without recursion and with an empty log.
\<close>

theorem cascade_terminates:
  "(\<exists>res. click order b row column = Some res) \<and>
   (\<forall>n. hidden_count b < n \<longrightarrow>
      click_fuel order n b row column = click order b row column \<and>
      (\<exists>res. click_log order n b row column = Some res)) \<and>
   (\<forall>n b' log. click_log order n b row column = Some (Inr (b', log)) \<longrightarrow>
      click_fuel order n b row column = Some (Inr b') \<and> distinct log \<and>
      (\<forall>p. p \<in> set log \<longleftrightarrow> is_hidden b p \<and> is_revealed b' p)) \<and>
   (valid_position b (row, column) \<and> is_revealed b (row, column) \<longrightarrow>
      click_log order (Suc 0) b row column = Some (Inr (b, [])) \<and>
      (\<forall>n. click_fuel order (Suc n) b row column = Some (Inr b)))"
proof (intro conjI allI impI)
  show "\<exists>res. click order b row column = Some res"
    by (rule click_Some)
next
  fix n
  assume "hidden_count b < n"
  then show "click_fuel order n b row column = click order b row column"
    "\<exists>res. click_log order n b row column = Some res"
    by (rule click_fuel_click, rule click_log_returns)
next
  fix n b' log
  assume l: "click_log order n b row column = Some (Inr (b', log))"
  then show "click_fuel order n b row column = Some (Inr b')"
    by (rule click_log_fuel)
  from click_log_sound(1) [OF l]
  have d: "distinct log" and s: "\<forall>p \<in> set log. open_cell b p \<and> is_revealed b' p"
    and f: "\<forall>p. p \<notin> set log \<longrightarrow> cells b' p = cells b p"
    by blast+
  show "distinct log" by (rule d)
  show "p \<in> set log \<longleftrightarrow> is_hidden b p \<and> is_revealed b' p" for p
  proof
    assume "p \<in> set log"
    with s have "open_cell b p" "is_revealed b' p" by blast+
    then show "is_hidden b p \<and> is_revealed b' p"
      by (auto simp: open_cell_def is_hidden_def split: option.splits)
  next
    assume "is_hidden b p \<and> is_revealed b' p"
    then have "cells b' p \<noteq> cells b p"
      using hidden_not_open_same by blast
    with f show "p \<in> set log" by blast
  qed
next
  assume a: "valid_position b (row, column) \<and> is_revealed b (row, column)"
  then show "click_log order (Suc 0) b row column = Some (Inr (b, []))"
    by (auto simp: is_revealed_def validate_cell_valid split: option.splits FlagState.splits)
  show "click_fuel order (Suc n) b row column = Some (Inr b)" for n
    using a by (intro click_revealed) auto
qed

lemma example_get_neighbors: "get_neighbors example_board 0 0 = [(0, 1)]"
  by (simp add: get_neighbors_def is_valid_row_def is_valid_column_def)

lemma example_click_log_0_0:
  "click_log rev 4 example_board 0 0 =
     Some (Inr (example_board\<lparr>cells := (cells example_board)
         ((0, 0) \<mapsto> \<lparr>flag = NoFlag, clicked = ClickedState, cls = EmptyPlainCell\<rparr>,
          (0, 1) \<mapsto> \<lparr>flag = NoFlag, clicked = ClickedState, cls = PlainCell 1\<rparr>)\<rparr>,
        [(0, 0), (0, 1)]))"
  by (simp add: validate_cell_def is_valid_row_def is_valid_column_def example_get_neighbors
        example_board_cells Cell_init_def eval_nat_numeral)

theorem cascade_terminates_witness:
  "(\<exists>res. click rev example_board 0 0 = Some res) \<and>
   click_fuel rev 4 example_board 0 0 = click rev example_board 0 0 \<and>
   distinct [(0::int, 0::int), (0, 1)] \<and>
   click_fuel rev 4 example_board 0 0 =
     Some (Inr (example_board\<lparr>cells := (cells example_board)
         ((0, 0) \<mapsto> \<lparr>flag = NoFlag, clicked = ClickedState, cls = EmptyPlainCell\<rparr>,
          (0, 1) \<mapsto> \<lparr>flag = NoFlag, clicked = ClickedState, cls = PlainCell 1\<rparr>)\<rparr>)) \<and>
   is_hidden example_board (0, 1) \<and>
   click_fuel rev 1 (example_board\<lparr>cells := (cells example_board)
         ((0, 0) \<mapsto> \<lparr>flag = NoFlag, clicked = ClickedState, cls = EmptyPlainCell\<rparr>,
          (0, 1) \<mapsto> \<lparr>flag = NoFlag, clicked = ClickedState, cls = PlainCell 1\<rparr>)\<rparr>) 0 1 =
     Some (Inr (example_board\<lparr>cells := (cells example_board)
         ((0, 0) \<mapsto> \<lparr>flag = NoFlag, clicked = ClickedState, cls = EmptyPlainCell\<rparr>,
          (0, 1) \<mapsto> \<lparr>flag = NoFlag, clicked = ClickedState, cls = PlainCell 1\<rparr>)\<rparr>))"
proof -
  let ?b' = "example_board\<lparr>cells := (cells example_board)
         ((0, 0) \<mapsto> \<lparr>flag = NoFlag, clicked = ClickedState, cls = EmptyPlainCell\<rparr>,
          (0, 1) \<mapsto> \<lparr>flag = NoFlag, clicked = ClickedState, cls = PlainCell 1\<rparr>)\<rparr>"
  note inst = cascade_terminates [of rev example_board 0 0]
  note inst' = cascade_terminates [of rev ?b' 0 1]
  have h: "hidden_count example_board < 4"
    using hidden_count_le [of example_board] by simp
  have v: "valid_position ?b' (0, 1) \<and> is_revealed ?b' (0, 1)"
    by (simp add: valid_position_def is_valid_row_def is_valid_column_def is_revealed_def)
  from inst have "\<exists>res. click rev example_board 0 0 = Some res"
    by blast
  moreover from inst h have "click_fuel rev 4 example_board 0 0 = click rev example_board 0 0"
    by blast
  moreover from inst example_click_log_0_0
  have "click_fuel rev 4 example_board 0 0 = Some (Inr ?b')" "distinct [(0::int, 0::int), (0, 1)]"
    "(0, 1) \<in> set [(0::int, 0::int), (0, 1)] \<longleftrightarrow> is_hidden example_board (0, 1) \<and> is_revealed ?b' (0, 1)"
    by blast+
  moreover from inst' v have "click_fuel rev (Suc 0) ?b' 0 1 = Some (Inr ?b')"
    by blast
  ultimately show ?thesis
    by (simp del: click_fuel.simps)
qed

section \<open>What the cascade reveals\<close>

lemma get_neighbors_spec_pair:
  "set (get_neighbors b (fst p) (snd p)) = spec_neighborhood (rows b) (columns b) p"
  using get_neighbors_spec [of b "fst p" "snd p"] by simp

lemma empty_region_facts:
  "p \<in> empty_region b p0 \<Longrightarrow> valid_position b p \<and> has_class b p EmptyPlainCell"
  by (induction rule: empty_region.induct)
     (auto simp: spec_neighborhood_def valid_position_def is_valid_row_def is_valid_column_def)

lemma reach_valid: "q \<in> reach b p \<Longrightarrow> valid_position b q \<and> open_cell b q"
  by (induction rule: reach.induct) (auto dest: get_neighbors_valid)

lemma reach_mono:
  assumes "evolves b b'" "q \<in> reach b' p"
  shows "q \<in> reach b p"
  using assms(2)
proof (induction rule: reach.induct)
  case origin
  then have "valid_position b p" "open_cell b p"
    using evolves_open [OF assms(1)] by (simp_all add: evolves_dims [OF assms(1)])
  then show ?case by (rule reach.origin)
next
  case (spread x y)
  from spread.hyps have "has_class b x EmptyPlainCell" "y \<in> set (get_neighbors b (fst x) (snd x))"
    "open_cell b y"
    using evolves_open [OF assms(1)]
    by (simp_all add: evolves_dims [OF assms(1)] evolves_class [OF assms(1)])
  with spread.IH show ?case by (rule reach.spread)
qed

lemma reach_through:
  assumes "valid_position b p" "open_cell b p" "has_class b p EmptyPlainCell"
    "p' \<in> set (get_neighbors b (fst p) (snd p))" "q \<in> reach b p'"
  shows "q \<in> reach b p"
  using assms(5)
proof (induction rule: reach.induct)
  case origin
  from assms(1,2) have "p \<in> reach b p" by (rule reach.origin)
  then show ?case
    using assms(3,4) origin(2) by (rule reach.spread)
next
  case (spread x y)
  then show ?case by (auto intro: reach.spread)
qed

lemma click_changes_reach:
  "click_fuel order n b row column = Some (Inr b') \<Longrightarrow> set_order order \<Longrightarrow>
     open_cell b q \<Longrightarrow> \<not> open_cell b' q \<Longrightarrow> q \<in> reach b (row, column)"
  "click_neighbors order n b ps = Some (Inr b') \<Longrightarrow> set_order order \<Longrightarrow>
     open_cell b q \<Longrightarrow> \<not> open_cell b' q \<Longrightarrow> \<exists>p \<in> set ps. q \<in> reach b p"
proof (induction order n b row column and order n b ps arbitrary: b' and b'
       rule: click_fuel_click_neighbors.induct)
  case (1 order b row column)
  then show ?case by simp
next
  case (2 order n b row column)
  from "2.prems"(1) obtain u where v: "validate_cell b row column = Inr u"
    by (auto split: sum.splits)
  then have valid: "valid_position b (row, column)"
    by (rule validate_cell_Inr_valid)
  from "2.prems"(1) v obtain a_cell where c: "cells b (row, column) = Some a_cell"
    by (auto split: option.splits)
  show ?case
  proof (cases "flag a_cell = NoFlag \<and> clicked a_cell = UnclikedState")
    case False
    with "2.prems"(1) v c have "b' = b"
      by (auto split: FlagState.splits ClickState.splits)
    with "2.prems" show ?thesis by simp
  next
    case isopen: True
    let ?b0 = "b\<lparr>cells := (cells b)((row, column) \<mapsto> a_cell\<lparr>clicked := ClickedState\<rparr>)\<rparr>"
    have o: "open_cell b (row, column)"
      using c isopen by (simp add: open_cell_def)
    have self: "(row, column) \<in> reach b (row, column)"
      using valid o by (rule reach.origin)
    have ev0: "evolves b ?b0"
      using c isopen by (intro reveal_evolves) auto
    show ?thesis
    proof (cases "cls a_cell = EmptyPlainCell")
      case False
      with "2.prems"(1) v c isopen have "b' = ?b0"
        by (auto simp: Let_def split: CellClass.splits)
      with "2.prems"(3,4) have "q = (row, column)"
        by (auto simp: open_cell_update)
      with self show ?thesis by simp
    next
      case True
      with "2.prems"(1) v c isopen
      have nb: "click_neighbors order n ?b0 (order (get_neighbors b row column)) = Some (Inr b')"
        by (auto simp: Let_def)
      show ?thesis
      proof (cases "q = (row, column)")
        case True
        with self show ?thesis by simp
      next
        case False
        with "2.prems"(3) have "open_cell ?b0 q"
          by (simp add: open_cell_update)
        with "2.IH" [OF v c _ _ refl True nb "2.prems"(2) _ "2.prems"(4)] isopen
        obtain p' where p': "p' \<in> set (order (get_neighbors b row column))"
          and qr: "q \<in> reach ?b0 p'"
          by blast
        from qr have "q \<in> reach b p'"
          by (rule reach_mono [OF ev0])
        moreover have "p' \<in> set (get_neighbors b (fst (row, column)) (snd (row, column)))"
          using p' "2.prems"(2) by (simp add: set_order_def)
        moreover have "has_class b (row, column) EmptyPlainCell"
          using c True by (simp add: has_class_def)
        ultimately show ?thesis
          using valid o by (simp add: reach_through [where p = "(row, column)" and p' = p'])
      qed
    qed
  qed
next
  case (3 order n b)
  then show ?case by simp
next
  case (4 order n b each neighbors)
  from "4.prems"(1) obtain b1 where
    c1: "click_fuel order n b (fst each) (snd each) = Some (Inr b1)"
    and c2: "click_neighbors order n b1 neighbors = Some (Inr b')"
    by (auto simp del: click_fuel.simps split: option.splits sum.splits)
  have ev1: "evolves b b1"
    using c1 by (rule click_evolves(1))
  show ?case
  proof (cases "open_cell b1 q")
    case False
    with "4.IH"(1) [OF c1 "4.prems"(2,3)] have "q \<in> reach b each"
      by simp
    then show ?thesis by auto
  next
    case True
    with "4.IH"(2) [OF c1 refl c2 "4.prems"(2) _ "4.prems"(4)]
    obtain p where p: "p \<in> set neighbors" and qr: "q \<in> reach b1 p"
      by blast
    from qr have "q \<in> reach b p"
      by (rule reach_mono [OF ev1])
    with p show ?thesis
      by auto
  qed
qed


lemma evolves_not_open: "evolves b b' \<Longrightarrow> \<not> open_cell b p \<Longrightarrow> \<not> open_cell b' p"
  using evolves_open by blast

lemma click_closed:
  "click_fuel order n b row column = Some (Inr b') \<Longrightarrow> set_order order \<Longrightarrow>
     \<not> open_cell b' (row, column) \<and>
     (\<forall>x. open_cell b x \<and> \<not> open_cell b' x \<and> has_class b x EmptyPlainCell \<longrightarrow>
        (\<forall>y \<in> set (get_neighbors b (fst x) (snd x)). \<not> open_cell b' y))"
  "click_neighbors order n b ps = Some (Inr b') \<Longrightarrow> set_order order \<Longrightarrow>
     (\<forall>p \<in> set ps. \<not> open_cell b' p) \<and>
     (\<forall>x. open_cell b x \<and> \<not> open_cell b' x \<and> has_class b x EmptyPlainCell \<longrightarrow>
        (\<forall>y \<in> set (get_neighbors b (fst x) (snd x)). \<not> open_cell b' y))"
proof (induction order n b row column and order n b ps arbitrary: b' and b'
       rule: click_fuel_click_neighbors.induct)
  case (1 order b row column)
  then show ?case by simp
next
  case (2 order n b row column)
  from "2.prems"(1) obtain u where v: "validate_cell b row column = Inr u"
    by (auto split: sum.splits)
  from "2.prems"(1) v obtain a_cell where c: "cells b (row, column) = Some a_cell"
    by (auto split: option.splits)
  show ?case
  proof (cases "flag a_cell = NoFlag \<and> clicked a_cell = UnclikedState")
    case False
    with "2.prems"(1) v c have "b' = b"
      by (auto split: FlagState.splits ClickState.splits)
    moreover have "\<not> open_cell b (row, column)"
      using c False by (simp add: open_cell_def)
    ultimately show ?thesis by blast
  next
    case isopen: True
    let ?b0 = "b\<lparr>cells := (cells b)((row, column) \<mapsto> a_cell\<lparr>clicked := ClickedState\<rparr>)\<rparr>"
    have ev0: "evolves b ?b0"
      using c isopen by (intro reveal_evolves) auto
    show ?thesis
    proof (cases "cls a_cell = EmptyPlainCell")
      case False
      with "2.prems"(1) v c isopen have b': "b' = ?b0"
        by (auto simp: Let_def split: CellClass.splits)
      have "\<not> has_class b (row, column) EmptyPlainCell"
        using c False by (simp add: has_class_def)
      then show ?thesis
        unfolding b' by (auto simp: open_cell_update)
    next
      case True
      with "2.prems"(1) v c isopen
      have nb: "click_neighbors order n ?b0 (order (get_neighbors b row column)) = Some (Inr b')"
        by (auto simp: Let_def)
      have ev: "evolves ?b0 b'"
        using nb by (rule click_evolves(2))
      from "2.IH" [OF v c _ _ refl True nb "2.prems"(2)] isopen
      have n1: "\<forall>p \<in> set (order (get_neighbors b row column)). \<not> open_cell b' p"
        and n2: "\<forall>x. open_cell ?b0 x \<and> \<not> open_cell b' x \<and> has_class ?b0 x EmptyPlainCell \<longrightarrow>
                   (\<forall>y \<in> set (get_neighbors ?b0 (fst x) (snd x)). \<not> open_cell b' y)"
        by blast+
      have "\<not> open_cell ?b0 (row, column)"
        by (simp add: open_cell_update)
      then have self: "\<not> open_cell b' (row, column)"
        by (rule evolves_not_open [OF ev])
      have "\<forall>y \<in> set (get_neighbors b (fst x) (snd x)). \<not> open_cell b' y"
        if x: "open_cell b x" "\<not> open_cell b' x" "has_class b x EmptyPlainCell" for x
      proof (cases "x = (row, column)")
        case True
        with n1 "2.prems"(2) show ?thesis
          by (simp add: set_order_def)
      next
        case False
        with x have "open_cell ?b0 x" "has_class ?b0 x EmptyPlainCell"
          by (simp_all add: open_cell_update evolves_class [OF ev0])
        with n2 x(2) have "\<forall>y \<in> set (get_neighbors ?b0 (fst x) (snd x)). \<not> open_cell b' y"
          by blast
        then show ?thesis
          by (simp only: evolves_dims(3) [OF ev0])
      qed
      with self show ?thesis by blast
    qed
  qed
next
  case (3 order n b)
  then show ?case by auto
next
  case (4 order n b each neighbors)
  from "4.prems"(1) obtain b1 where
    c1: "click_fuel order n b (fst each) (snd each) = Some (Inr b1)"
    and c2: "click_neighbors order n b1 neighbors = Some (Inr b')"
    by (auto simp del: click_fuel.simps split: option.splits sum.splits)
  have ev1: "evolves b b1"
    using c1 by (rule click_evolves(1))
  have ev2: "evolves b1 b'"
    using c2 by (rule click_evolves(2))
  from "4.IH"(1) [OF c1 "4.prems"(2)]
  have a1: "\<not> open_cell b1 each"
    and a2: "\<forall>x. open_cell b x \<and> \<not> open_cell b1 x \<and> has_class b x EmptyPlainCell \<longrightarrow>
               (\<forall>y \<in> set (get_neighbors b (fst x) (snd x)). \<not> open_cell b1 y)"
    by simp_all
  from "4.IH"(2) [OF c1 refl c2 "4.prems"(2)]
  have r1: "\<forall>p \<in> set neighbors. \<not> open_cell b' p"
    and r2: "\<forall>x. open_cell b1 x \<and> \<not> open_cell b' x \<and> has_class b1 x EmptyPlainCell \<longrightarrow>
               (\<forall>y \<in> set (get_neighbors b1 (fst x) (snd x)). \<not> open_cell b' y)"
    by blast+
  have "\<not> open_cell b' each"
    using ev2 a1 by (rule evolves_not_open)
  moreover have "\<forall>y \<in> set (get_neighbors b (fst x) (snd x)). \<not> open_cell b' y"
    if x: "open_cell b x" "\<not> open_cell b' x" "has_class b x EmptyPlainCell" for x
  proof (cases "open_cell b1 x")
    case False
    with a2 x have "\<forall>y \<in> set (get_neighbors b (fst x) (snd x)). \<not> open_cell b1 y"
      by blast
    then show ?thesis
      using evolves_not_open [OF ev2] by blast
  next
    case True
    moreover have "has_class b1 x EmptyPlainCell"
      using x(3) by (simp add: evolves_class [OF ev1])
    ultimately have "\<forall>y \<in> set (get_neighbors b1 (fst x) (snd x)). \<not> open_cell b' y"
      using r2 x(2) by blast
    then show ?thesis
      by (simp only: evolves_dims(3) [OF ev1])
  qed
  ultimately show ?case
    using r1 by auto
qed

lemma hidden_unflagged_open: "is_hidden b p \<Longrightarrow> \<not> is_flagged b p \<Longrightarrow> open_cell b p"
  by (auto simp: is_hidden_def is_flagged_def open_cell_def split: option.splits
        intro: FlagState.exhaust)

lemma open_hidden: "open_cell b p \<Longrightarrow> is_hidden b p \<and> \<not> is_flagged b p"
  by (auto simp: is_hidden_def is_flagged_def open_cell_def split: option.splits)

lemma evolves_hidden_revealed:
  assumes "evolves b b'" "is_hidden b q" "is_revealed b' q"
  shows "open_cell b q \<and> \<not> open_cell b' q"
  using evolves_cell [OF assms(1), of q] assms(2,3)
  by (cases "cells b q"; cases "cells b' q")
     (auto simp: open_cell_def is_hidden_def is_revealed_def cell_evolves_def)

lemma evolves_unflagged_revealed:
  assumes "evolves b b'" "cells b q \<noteq> None" "\<not> is_flagged b q" "\<not> open_cell b' q"
  shows "is_revealed b' q"
proof -
  from assms(2) obtain c where c: "cells b q = Some c" by blast
  with evolves_cell [OF assms(1), of q] obtain c' where c': "cells b' q = Some c'"
    and ce: "cell_evolves c c'"
    by (cases "cells b' q") auto
  from assms(3) c have "flag c = NoFlag"
    by (cases "flag c") (auto simp: is_flagged_def)
  with ce have "flag c' = NoFlag"
    by (auto simp: cell_evolves_def)
  with assms(4) c' have "clicked c' = ClickedState"
    by (cases "clicked c'") (auto simp: open_cell_def)
  with c' show ?thesis
    by (simp add: is_revealed_def)
qed

lemma reach_region:
  assumes "q \<in> reach b p0" "has_class b p0 EmptyPlainCell"
  shows "q \<in> empty_region b p0 \<or>
         (\<exists>p \<in> empty_region b p0. q \<in> spec_neighborhood (rows b) (columns b) p)"
  using assms(1)
proof (induction rule: reach.induct)
  case origin
  then show ?case
    using assms(2) by (auto intro: empty_region.start)
next
  case (spread x y)
  from spread.IH spread.hyps(2) have x: "x \<in> empty_region b p0"
    by (auto intro: empty_region.step)
  moreover have "y \<in> spec_neighborhood (rows b) (columns b) x"
    using spread.hyps(3) by (simp add: get_neighbors_spec_pair)
  ultimately show ?case by blast
qed

lemma click_plain_local:
  assumes "click_fuel order (Suc n) b row column = Some (Inr b')"
    "\<not> has_class b (row, column) EmptyPlainCell" "q \<noteq> (row, column)"
  shows "cells b' q = cells b q"
proof -
  from assms(1) obtain u where v: "validate_cell b row column = Inr u"
    by (auto split: sum.splits)
  from assms(1) v obtain a_cell where c: "cells b (row, column) = Some a_cell"
    by (auto split: option.splits)
  from assms(2) c have "cls a_cell \<noteq> EmptyPlainCell"
    by (simp add: has_class_def)
  with assms(1) v c
  have "b' = b \<or> b' = b\<lparr>cells := (cells b)((row, column) \<mapsto> a_cell\<lparr>clicked := ClickedState\<rparr>)\<rparr>"
    by (auto simp: Let_def split: FlagState.splits ClickState.splits CellClass.splits)
  with assms(3) show ?thesis
    by auto
qed

text \<open>
  Claim C3, as amended. On a board with a cell at every coordinate of the grid, take a
  coordinate of the grid that holds an empty cell, and suppose that every cell of its
  connected region of empty cells is hidden without a flag and that no numbered cell
  bordering the region holds a flag. Then \<open>click\<close> returns a board on which every cell
  of the region went from hidden to revealed, so at least as many cells as the region
  has; every numbered cell bordering the region is revealed; and every cell that went
  from hidden to revealed is in the region or a neighbour of a cell of the region.
  A click on a cell that is not empty changes no cell but that one.
\<close>

theorem cascade_reveals_region:
  assumes filled: "board_filled b" and order: "set_order order"
    and valid: "valid_position b (row, column)"
    and empty: "has_class b (row, column) EmptyPlainCell"
    and region_open: "\<forall>p \<in> empty_region b (row, column). is_hidden b p \<and> \<not> is_flagged b p"
    and border_unflagged: "\<forall>q \<in> region_border b (row, column). \<not> is_flagged b q"
  shows "\<exists>b'. click order b row column = Some (Inr b') \<and>
           (\<forall>p \<in> empty_region b (row, column). is_hidden b p \<and> is_revealed b' p) \<and>
           card (empty_region b (row, column)) \<le> card (newly_revealed b b') \<and>
           (\<forall>q \<in> region_border b (row, column). is_revealed b' q) \<and>
           (\<forall>q \<in> newly_revealed b b'.
                  q \<in> empty_region b (row, column) \<or>
                  (\<exists>p \<in> empty_region b (row, column). q \<in> spec_neighborhood (rows b) (columns b) p)) \<and>
           (\<forall>r c b''. \<not> has_class b (r, c) EmptyPlainCell \<and> click order b r c = Some (Inr b'') \<longrightarrow>
                  (\<forall>q. q \<noteq> (r, c) \<longrightarrow> cells b'' q = cells b q))"
proof -
  let ?R = "empty_region b (row, column)"
  from click_ok [OF filled order valid] obtain b' where
    c: "click order b row column = Some (Inr b')" and ev: "evolves b b'"
    by blast
  from c have cf: "click_fuel order (Suc (nat (rows b) * nat (columns b))) b row column = Some (Inr b')"
    by (simp only: click_def)
  from click_closed(1) [OF cf order]
  have self: "\<not> open_cell b' (row, column)"
    and closed: "\<And>x y. open_cell b x \<Longrightarrow> \<not> open_cell b' x \<Longrightarrow> has_class b x EmptyPlainCell \<Longrightarrow>
                   y \<in> set (get_neighbors b (fst x) (snd x)) \<Longrightarrow> \<not> open_cell b' y"
    by blast+
  have ropen: "open_cell b p" if "p \<in> ?R" for p
    using region_open that by (blast intro: hidden_unflagged_open)
  have rclosed: "\<not> open_cell b' p" if "p \<in> ?R" for p
    using that
  proof (induction rule: empty_region.induct)
    case start
    show ?case by (rule self)
  next
    case (step p q)
    have "open_cell b p" "has_class b p EmptyPlainCell"
      using step.hyps(1) ropen empty_region_facts by blast+
    moreover have "q \<in> set (get_neighbors b (fst p) (snd p))"
      using step.hyps(2) by (simp add: get_neighbors_spec_pair)
    ultimately show ?case
      using step.IH closed by blast
  qed
  have region: "\<forall>p \<in> ?R. is_hidden b p \<and> is_revealed b' p"
    using region_open ropen rclosed evolves_open_revealed [OF ev] by blast
  have border: "is_revealed b' q" if "q \<in> region_border b (row, column)" for q
  proof -
    from that obtain p where p: "p \<in> ?R" and q: "q \<in> spec_neighborhood (rows b) (columns b) p"
      by (auto simp: region_border_def)
    from q have nb: "q \<in> set (get_neighbors b (fst p) (snd p))"
      by (simp add: get_neighbors_spec_pair)
    have "open_cell b p" "\<not> open_cell b' p" "has_class b p EmptyPlainCell"
      using p ropen rclosed empty_region_facts by blast+
    then have "\<not> open_cell b' q"
      using nb by (rule closed)
    moreover have "cells b q \<noteq> None"
      using filled get_neighbors_valid [OF nb] unfolding board_filled_iff by blast
    moreover have "\<not> is_flagged b q"
      using border_unflagged that by blast
    ultimately show ?thesis
      using evolves_unflagged_revealed [OF ev] by blast
  qed
  have changed: "q \<in> reach b (row, column)" if "is_hidden b q \<and> is_revealed b' q" for q
  proof -
    from that have "open_cell b q \<and> \<not> open_cell b' q"
      using evolves_hidden_revealed [OF ev] by blast
    then show ?thesis
      using click_changes_reach(1) [OF cf order] by blast
  qed
  have past: "\<forall>q. is_hidden b q \<and> is_revealed b' q \<longrightarrow>
                  q \<in> ?R \<or> (\<exists>p \<in> ?R. q \<in> spec_neighborhood (rows b) (columns b) p)"
    using changed reach_region [OF _ empty] by blast
  have "{p. is_hidden b p \<and> is_revealed b' p} \<subseteq> set (grid_positions b)"
    unfolding set_grid_positions using changed reach_valid by blast
  then have "finite {p. is_hidden b p \<and> is_revealed b' p}"
    by (rule finite_subset) simp
  moreover have "?R \<subseteq> {p. is_hidden b p \<and> is_revealed b' p}"
    using region by blast
  ultimately have count: "card ?R \<le> card {p. is_hidden b p \<and> is_revealed b' p}"
    by (intro card_mono)
  have plain: "\<forall>r c b''. \<not> has_class b (r, c) EmptyPlainCell \<and> click order b r c = Some (Inr b'') \<longrightarrow>
                  (\<forall>q. q \<noteq> (r, c) \<longrightarrow> cells b'' q = cells b q)"
    unfolding click_def using click_plain_local by blast
  from c region count border past plain show ?thesis
    unfolding newly_revealed_def by blast
qed


lemma finite_empty_region: "finite (empty_region b p0)"
proof (rule finite_subset)
  show "empty_region b p0 \<subseteq> set (grid_positions b)"
    unfolding set_grid_positions using empty_region_facts by blast
qed simp

lemma Board_init_hidden:
  assumes "Board_init n_rows n_columns n_bombs placer = Inr b" "cells b p \<noteq> None"
  shows "is_hidden b p \<and> \<not> is_flagged b p"
  using assms(2) Board_init_fresh [OF assms(1), of p]
  by (auto simp: is_hidden_def is_flagged_def)

theorem cascade_reveals_region_witness:
  "\<exists>b'. click rev example_board 0 0 = Some (Inr b') \<and>
       is_revealed b' (0, 0) \<and> is_revealed b' (0, 1) \<and>
       1 \<le> card (newly_revealed example_board b')"
proof -
  let ?R = "empty_region example_board (0, 0)"
  have valid: "valid_position example_board (0, 0)"
    by (simp add: valid_position_def is_valid_row_def is_valid_column_def)
  have empty: "has_class example_board (0, 0) EmptyPlainCell"
    by (simp add: has_class_def example_board_cells Cell_init_def)
  have region_open: "\<forall>p \<in> ?R. is_hidden example_board p \<and> \<not> is_flagged example_board p"
  proof
    fix p
    assume "p \<in> ?R"
    then have "has_class example_board p EmptyPlainCell"
      using empty_region_facts by blast
    then have "cells example_board p \<noteq> None"
      by (auto simp: has_class_def split: option.splits)
    then show "is_hidden example_board p \<and> \<not> is_flagged example_board p"
      by (rule Board_init_hidden [OF example_board_init])
  qed
  have border_unflagged: "\<forall>q \<in> region_border example_board (0, 0). \<not> is_flagged example_board q"
  proof
    fix q
    assume "q \<in> region_border example_board (0, 0)"
    then have "is_numbered example_board q"
      by (simp add: region_border_def)
    then have "cells example_board q \<noteq> None"
      by (auto simp: is_numbered_def split: option.splits)
    then show "\<not> is_flagged example_board q"
      using Board_init_hidden [OF example_board_init] by blast
  qed
  have start: "(0, 0) \<in> ?R"
    using valid empty by (rule empty_region.start)
  have "is_numbered example_board (0, 1)"
    by (simp add: is_numbered_def example_board_cells Cell_init_def)
  moreover have "(0, 1) \<in> spec_neighborhood (rows example_board) (columns example_board) (0, 0)"
    by (simp add: spec_neighborhood_def)
  ultimately have border: "(0, 1) \<in> region_border example_board (0, 0)"
    using start by (auto simp: region_border_def)
  have "1 \<le> card ?R"
    using start finite_empty_region [of example_board "(0, 0)"]
    by (metis One_nat_def Suc_leI card_gt_0_iff empty_iff)
  moreover
  from cascade_reveals_region
    [OF example_board_filled set_order_rev valid empty region_open border_unflagged]
  obtain b' where "click rev example_board 0 0 = Some (Inr b')"
    "\<forall>p \<in> ?R. is_hidden example_board p \<and> is_revealed b' p"
    "card ?R \<le> card (newly_revealed example_board b')"
    "\<forall>q \<in> region_border example_board (0, 0). is_revealed b' q"
    by blast
  ultimately show ?thesis
    using start border by (intro exI [of _ b']) auto
qed

lemma example_flagged_dims [simp]: "rows example_flagged = 1" "columns example_flagged = 3"
  by (simp_all add: example_flagged_def)

lemma example_flagged_cell:
  "cells example_flagged (0, 0) = Some \<lparr>flag = Flag, clicked = UnclikedState, cls = EmptyPlainCell\<rparr>"
  by (simp add: example_flagged_def)

text \<open>
  Claim C3, as stated, fails when a cell of the region holds a flag: on the example with
  a flag on its empty cell, that cell is its own region, and \<open>click\<close> on it returns the
  board unchanged, so fewer cells are revealed than the region has.
\<close>

theorem flagged_region_not_revealed:
  "put_flag example_board 0 0 = Inr example_flagged \<and>
   board_filled example_flagged \<and>
   valid_position example_flagged (0, 0) \<and>
   has_class example_flagged (0, 0) EmptyPlainCell \<and>
   (0, 0) \<in> empty_region example_flagged (0, 0) \<and>
   is_hidden example_flagged (0, 0) \<and>
   click rev example_flagged 0 0 = Some (Inr example_flagged) \<and>
   \<not> is_revealed example_flagged (0, 0) \<and>
   card (newly_revealed example_flagged example_flagged) <
     card (empty_region example_flagged (0, 0))"
proof -
  have valid0: "valid_position example_board (0, 0)"
    by (simp add: valid_position_def is_valid_row_def is_valid_column_def)
  have flagged: "put_flag example_board 0 0 = Inr example_flagged"
    using valid0
    by (simp add: put_flag_Inr example_board_cells example_flagged_def cell_put_flag_def
          Cell_init_def)
  have filled: "board_filled example_flagged"
    using flagged example_board_filled by (rule put_flag_filled)
  have valid: "valid_position example_flagged (0, 0)"
    by (simp add: valid_position_def is_valid_row_def is_valid_column_def)
  have empty: "has_class example_flagged (0, 0) EmptyPlainCell"
    by (simp add: has_class_def example_flagged_cell)
  have start: "(0, 0) \<in> empty_region example_flagged (0, 0)"
    using valid empty by (rule empty_region.start)
  have hidden: "is_hidden example_flagged (0, 0)"
    by (simp add: is_hidden_def example_flagged_cell)
  have "is_flagged example_flagged (0, 0)"
    by (simp add: is_flagged_def example_flagged_cell)
  with valid have click: "click rev example_flagged 0 0 = Some (Inr example_flagged)"
    by (rule click_flagged)
  have not_revealed: "\<not> is_revealed example_flagged (0, 0)"
    by (simp add: is_revealed_def example_flagged_cell)
  have "newly_revealed example_flagged example_flagged = {}"
    by (auto simp: newly_revealed_def is_hidden_def is_revealed_def split: option.splits)
  then have "card (newly_revealed example_flagged example_flagged) = 0"
    by (simp only: card.empty)
  moreover have "0 < card (empty_region example_flagged (0, 0))"
    using start finite_empty_region [of example_flagged "(0, 0)"]
    by (metis card_gt_0_iff empty_iff)
  ultimately have
    "card (newly_revealed example_flagged example_flagged) <
       card (empty_region example_flagged (0, 0))"
    by simp
  with flagged filled valid empty start hidden click not_revealed show ?thesis
    by blast
qed

end
